theory Spec2Isabelle
  imports Complex_Main "HOL-Library.Word"
begin

section \<open>LyreBird audio stream analyzer: the capture and analysis engine\<close>

text \<open>
  A shallow embedding of \<^verbatim>\<open>src/analysis/lyrebird_stream_analyzer.py\<close>, class
  \<^verbatim>\<open>AudioStreamAnalyzer\<close>: the per-stream queue and its drop-oldest enqueue, the
  conversion of raw PCM bytes into frames (\<^verbatim>\<open>capture_stream_ffmpeg\<close>), the spectrum
  (\<^verbatim>\<open>analyze_frequency_spectrum\<close>), the statistics (\<^verbatim>\<open>compute_statistics\<close>) and
  the coordinator's loop body (\<^verbatim>\<open>analyze_streams\<close>).

  Conventions of the embedding.
  \<^item> A finite floating-point number is a \<open>real\<close>. The samples and the spectra are
    continuous quantities and their rounding is not modelled. The chunk size is an
    integer that every frame length depends on, so the product it is truncated from is
    rounded as a double is (\<open>round_double\<close>). Where the source can produce \<open>inf\<close>,
    \<open>-inf\<close> or \<open>nan\<close> the value is an \<open>npfloat\<close>, with the IEEE 754 rules for the
    special values.
  \<^item> An exception is a value: a function that can raise returns \<open>py_error + 'a\<close>.
  \<^item> Bytes are \<open>8 word\<close>, PCM sample codes are \<open>16 word\<close> read as signed.
\<close>

subsection \<open>Exceptions and NumPy scalars\<close>

datatype py_error = ValueError | IndexError | ZeroDivisionError | OverflowError | Full | Empty

datatype npfloat = Fin real | PInf | NInf | NaN

text \<open>IEEE 754 arithmetic on the special values; on finite values, the reals.\<close>

fun np_neg :: "npfloat \<Rightarrow> npfloat" where
  "np_neg (Fin a) = Fin (- a)"
| "np_neg PInf = NInf"
| "np_neg NInf = PInf"
| "np_neg NaN = NaN"

fun np_add :: "npfloat \<Rightarrow> npfloat \<Rightarrow> npfloat" where
  "np_add (Fin a) (Fin b) = Fin (a + b)"
| "np_add NaN _ = NaN"
| "np_add _ NaN = NaN"
| "np_add PInf NInf = NaN"
| "np_add NInf PInf = NaN"
| "np_add PInf _ = PInf"
| "np_add NInf _ = NInf"
| "np_add _ PInf = PInf"
| "np_add _ NInf = NInf"

definition np_sub :: "npfloat \<Rightarrow> npfloat \<Rightarrow> npfloat" where
  "np_sub a b = np_add a (np_neg b)"

text \<open>
  Division of two finite NumPy scalars: a zero divisor gives \<open>nan\<close> (for \<open>0/0\<close>) or an
  infinity with a warning, never an exception. Signed zeros are not modelled: a zero
  divisor counts as \<open>+0.0\<close>.
\<close>

definition np_div_fin :: "real \<Rightarrow> real \<Rightarrow> npfloat" where
  "np_div_fin a b =
     (if b = 0 then (if a = 0 then NaN else if 0 < a then PInf else NInf)
      else Fin (a / b))"

text \<open>\<^verbatim>\<open>np.log10\<close> of a finite scalar: \<open>-inf\<close> at zero, \<open>nan\<close> below it.\<close>

definition np_log10 :: "real \<Rightarrow> npfloat" where
  "np_log10 x = (if x = 0 then NInf else if x < 0 then NaN else Fin (log 10 x))"

text \<open>
  \<^verbatim>\<open>k * x\<close> for a finite number \<open>k\<close> and a scalar \<open>x\<close>; where \<open>x\<close> is infinite or
  not a number these are the IEEE 754 rules.
\<close>

fun np_scale :: "real \<Rightarrow> npfloat \<Rightarrow> npfloat" where
  "np_scale k (Fin a) = Fin (k * a)"
| "np_scale k NaN = NaN"
| "np_scale k PInf = (if k = 0 then NaN else if 0 < k then PInf else NInf)"
| "np_scale k NInf = (if k = 0 then NaN else if 0 < k then NInf else PInf)"

definition is_finite :: "npfloat \<Rightarrow> bool" where
  "is_finite x = (case x of Fin _ \<Rightarrow> True | _ \<Rightarrow> False)"

subsection \<open>Rounding to a double\<close>

text \<open>
  IEEE 754 binary64, round to nearest, ties to even: a significand of 53 bits, the least
  exponent of a normal number \<open>-1022\<close> (below it the spacing stays \<open>2^-1074\<close>), and an
  infinity once the rounded magnitude reaches \<open>2^1024\<close>. \<open>ulp_exponent x\<close> is the
  exponent of the spacing of the doubles around \<open>x\<close>.
\<close>

definition round_half_even :: "real \<Rightarrow> int" where
  "round_half_even y =
     (let f = \<lfloor>y\<rfloor>
      in if y - real_of_int f < 1 / 2 then f
         else if 1 / 2 < y - real_of_int f then f + 1
         else if even f then f else f + 1)"

definition ulp_exponent :: "real \<Rightarrow> int" where
  "ulp_exponent x = max \<lfloor>log 2 \<bar>x\<bar>\<rfloor> (- 1022) - 52"

definition round_double :: "real \<Rightarrow> npfloat" where
  "round_double x =
     (if x = 0 then Fin 0
      else let y = real_of_int (round_half_even (x / 2 powr real_of_int (ulp_exponent x)))
                     * 2 powr real_of_int (ulp_exponent x)
           in if 2 ^ 1024 \<le> \<bar>y\<bar> then (if 0 < x then PInf else NInf) else Fin y)"

subsection \<open>The per-stream buffer: \<^verbatim>\<open>queue.Queue(maxsize)\<close>\<close>

text \<open>
  \<^verbatim>\<open>self.audio_queues = {name: queue.Queue(maxsize=10) for name in self.streams}\<close>.
  Python's queue is unbounded when \<open>maxsize \<le> 0\<close>; \<open>put_nowait\<close> raises \<open>Full\<close> and
  \<open>get_nowait\<close> raises \<open>Empty\<close> instead of blocking.
\<close>

record 'a py_queue =
  maxsize :: int
  items :: "'a list"

definition new_queue :: "int \<Rightarrow> 'a py_queue" where
  "new_queue k = \<lparr>maxsize = k, items = []\<rparr>"

definition put_nowait :: "'a py_queue \<Rightarrow> 'a \<Rightarrow> py_error + 'a py_queue" where
  "put_nowait q x =
     (if 0 < maxsize q \<and> maxsize q \<le> int (length (items q)) then Inl Full
      else Inr (q\<lparr>items := items q @ [x]\<rparr>))"

definition get_nowait :: "'a py_queue \<Rightarrow> py_error + ('a \<times> 'a py_queue)" where
  "get_nowait q =
     (case items q of [] \<Rightarrow> Inl Empty | x # xs \<Rightarrow> Inr (x, q\<lparr>items := xs\<rparr>))"

text \<open>
  Lines 174 to 183 of \<^verbatim>\<open>capture_stream_ffmpeg\<close>, run without interruption:
  \<^verbatim>\<open>
  try:
      q.put_nowait((timestamp, audio_data))
  except queue.Full:
      try:
          q.get_nowait()
          q.put_nowait((timestamp, audio_data))
      except:
          pass
  \<close>
\<close>

definition enqueue_frame :: "'a py_queue \<Rightarrow> 'a \<Rightarrow> 'a py_queue" where
  "enqueue_frame q x =
     (case put_nowait q x of
        Inr q' \<Rightarrow> q'
      | Inl _ \<Rightarrow>
          (case get_nowait q of
             Inl _ \<Rightarrow> q
           | Inr (_, q1) \<Rightarrow>
               (case put_nowait q1 x of Inl _ \<Rightarrow> q1 | Inr q2 \<Rightarrow> q2)))"

fun enqueue_all :: "'a py_queue \<Rightarrow> 'a list \<Rightarrow> 'a py_queue" where
  "enqueue_all q [] = q"
| "enqueue_all q (x # xs) = enqueue_all (enqueue_frame q x) xs"

text \<open>Draining: the consumer takes entries until the queue reports \<open>Empty\<close>.\<close>

function drain :: "'a py_queue \<Rightarrow> 'a list" where
  "drain q = (case get_nowait q of Inl _ \<Rightarrow> [] | Inr (x, q') \<Rightarrow> x # drain q')"
  by pat_completeness auto
termination
  by (relation "measure (\<lambda>q. length (items q))")
    (auto simp: get_nowait_def split: list.splits)

declare drain.simps [simp del]

subsection \<open>Capture worker: from raw bytes to a frame\<close>

text \<open>
  The fields of the analyzer that the capture and the analysis read, set by
  \<^verbatim>\<open>__init__\<close> (lines 67 to 69):
  \<^verbatim>\<open>
  self.sample_rate = sample_rate
  self.chunk_duration = chunk_duration
  self.chunk_size = int(sample_rate * chunk_duration)
  \<close>
\<close>

record config =
  sample_rate :: int
  chunk_duration :: npfloat
  chunk_size :: int

text \<open>
  \<open>int(x)\<close> of a float truncates towards zero; it raises \<open>OverflowError\<close> on an
  infinity and \<open>ValueError\<close> on not-a-number.
\<close>

definition py_int :: "real \<Rightarrow> int" where
  "py_int x = (if 0 \<le> x then \<lfloor>x\<rfloor> else \<lceil>x\<rceil>)"

fun py_int_of_float :: "npfloat \<Rightarrow> py_error + int" where
  "py_int_of_float (Fin x) = Inr (py_int x)"
| "py_int_of_float NaN = Inl ValueError"
| "py_int_of_float _ = Inl OverflowError"

text \<open>
  \<open>sample_rate * chunk_duration\<close> multiplies an \<open>int\<close> by a \<open>float\<close>: the integer is
  converted to the nearest double (\<open>OverflowError\<close> when it is too large), and the
  product of the two doubles is rounded to a double.
\<close>

definition int_to_double :: "int \<Rightarrow> py_error + real" where
  "int_to_double n =
     (case round_double (real_of_int n) of Fin f \<Rightarrow> Inr f | _ \<Rightarrow> Inl OverflowError)"

definition float_product :: "real \<Rightarrow> npfloat \<Rightarrow> npfloat" where
  "float_product f c = (case c of Fin cd \<Rightarrow> round_double (f * cd) | _ \<Rightarrow> np_scale f c)"

text \<open>
  \<^verbatim>\<open>__init__\<close>, for a sample rate and the duration as the number written in the call:
  the \<open>float\<close> that holds the duration is the double nearest to it.
\<close>

definition analyzer_init :: "int \<Rightarrow> real \<Rightarrow> py_error + config" where
  "analyzer_init sr c =
     (let cd = round_double c
      in case int_to_double sr of
           Inl e \<Rightarrow> Inl e
         | Inr f \<Rightarrow>
             (case py_int_of_float (float_product f cd) of
                Inl e \<Rightarrow> Inl e
              | Inr n \<Rightarrow> Inr \<lparr>sample_rate = sr, chunk_duration = cd, chunk_size = n\<rparr>))"

text \<open>An analyzer is one that \<^verbatim>\<open>__init__\<close> has built.\<close>

definition initialized :: "config \<Rightarrow> bool" where
  "initialized cfg = (\<exists>c. analyzer_init (sample_rate cfg) c = Inr cfg)"

definition bytes_per_sample :: int where
  "bytes_per_sample = 2"

definition chunk_bytes :: "config \<Rightarrow> int" where
  "chunk_bytes cfg = chunk_size cfg * bytes_per_sample"

text \<open>
  \<^verbatim>\<open>np.frombuffer(raw_audio, dtype=np.int16)\<close>: two bytes per sample, low byte first
  (the stream is \<open>s16le\<close>); a buffer of odd length raises \<open>ValueError\<close>.
\<close>

fun int16_pairs :: "8 word list \<Rightarrow> 16 word list" where
  "int16_pairs (lo # hi # bs) = (ucast lo + 256 * ucast hi) # int16_pairs bs"
| "int16_pairs _ = []"

definition frombuffer_int16 :: "8 word list \<Rightarrow> py_error + 16 word list" where
  "frombuffer_int16 raw =
     (if odd (length raw) then Inl ValueError else Inr (int16_pairs raw))"

text \<open>\<^verbatim>\<open>audio_data.astype(np.float32) / 32768.0\<close>, for one sample code.\<close>

definition pcm_to_float :: "16 word \<Rightarrow> real" where
  "pcm_to_float w = real_of_int (sint w) / 32768"

text \<open>Lines 161 to 163: a short read is padded with zero bytes.\<close>

definition pad_chunk :: "config \<Rightarrow> 8 word list \<Rightarrow> 8 word list" where
  "pad_chunk cfg raw =
     (if int (length raw) < chunk_bytes cfg
      then raw @ replicate (nat (chunk_bytes cfg - int (length raw))) 0
      else raw)"

text \<open>
  One pass of the worker's loop body up to the frame (lines 155 to 169), \<open>raw\<close> being
  what \<^verbatim>\<open>process.stdout.read(chunk_bytes)\<close> returned: \<open>None\<close> is the \<open>break\<close> after a read
  of zero bytes, an error is an exception that leaves the loop. A buffered reader raises
  \<open>ValueError\<close> when asked for a negative number of bytes other than \<open>-1\<close>, and
  \<open>chunk_bytes\<close> is even.
\<close>

definition capture_chunk :: "config \<Rightarrow> 8 word list \<Rightarrow> (py_error + real list) option" where
  "capture_chunk cfg raw =
     (if chunk_bytes cfg < 0 then Some (Inl ValueError)
      else if length raw = 0 then None
      else Some (case frombuffer_int16 (pad_chunk cfg raw) of
                   Inl e \<Rightarrow> Inl e
                 | Inr codes \<Rightarrow> Inr (map pcm_to_float codes)))"

subsection \<open>Spectral analyzer\<close>

text \<open>
  Library functions, by their documented definitions.
  \<^verbatim>\<open>scipy.signal.windows.hann(M)\<close> (symmetric): all ones for \<open>M \<le> 1\<close>, else
  \<open>0.5 + 0.5 cos(fac)\<close> over \<open>fac = linspace(-pi, pi, M)\<close>.
\<close>

definition hann :: "nat \<Rightarrow> real list" where
  "hann M =
     (if M \<le> 1 then replicate M 1
      else map (\<lambda>n. 0.5 + 0.5 * cos (- pi + 2 * pi * real n / real (M - 1))) [0..<M])"

text \<open>
  \<^verbatim>\<open>scipy.fft.rfft\<close>: the discrete Fourier transform of a real sequence at the
  frequencies \<open>0 .. n div 2\<close>; an empty input raises \<open>ValueError\<close>.
\<close>

definition dft_bin :: "real list \<Rightarrow> nat \<Rightarrow> complex" where
  "dft_bin xs k =
     sum_list (map (\<lambda>j. complex_of_real (xs ! j) *
                          cis (- 2 * pi * real j * real k / real (length xs)))
                   [0..<length xs])"

definition rfft :: "real list \<Rightarrow> py_error + complex list" where
  "rfft xs =
     (if xs = [] then Inl ValueError
      else Inr (map (dft_bin xs) [0..<length xs div 2 + 1]))"

text \<open>
  \<^verbatim>\<open>rfftfreq(n, d)\<close>: \<^verbatim>\<open>val = 1.0/(n*d); results = arange(0, n//2 + 1); return results * val\<close>.
\<close>

definition rfftfreq :: "nat \<Rightarrow> real \<Rightarrow> py_error + real list" where
  "rfftfreq n d =
     (if real n * d = 0 then Inl ZeroDivisionError
      else Inr (map (\<lambda>k. real k * (1 / (real n * d))) [0..<n div 2 + 1]))"

text \<open>
  \<^verbatim>\<open>analyze_frequency_spectrum\<close> (lines 194 to 218). The argument of the logarithm is
  \<open>psd + 1e-10\<close> with \<open>psd\<close> a squared magnitude, so it is positive and the result finite.
\<close>

definition analyze_frequency_spectrum ::
  "config \<Rightarrow> real list \<Rightarrow> py_error + (real list \<times> real list)" where
  "analyze_frequency_spectrum cfg audio_data =
     (let window = hann (length audio_data);
          windowed_data = map2 (*) audio_data window
      in case rfft windowed_data of
           Inl e \<Rightarrow> Inl e
         | Inr fft_vals \<Rightarrow>
             if sample_rate cfg = 0 then Inl ZeroDivisionError
             else (case rfftfreq (length windowed_data) (1 / real_of_int (sample_rate cfg)) of
                     Inl e \<Rightarrow> Inl e
                   | Inr fft_freq \<Rightarrow>
                       let psd = map (\<lambda>z. (cmod z)\<^sup>2) fft_vals;
                           psd_db = map (\<lambda>p. 10 * log 10 (p + 1 / 10 ^ 10)) psd
                       in Inr (fft_freq, psd_db)))"

subsection \<open>Quality metrics\<close>

text \<open>The remaining NumPy scalar operations that \<^verbatim>\<open>compute_statistics\<close> uses.\<close>

fun np_div :: "npfloat \<Rightarrow> npfloat \<Rightarrow> npfloat" where
  "np_div (Fin a) (Fin b) = np_div_fin a b"
| "np_div NaN _ = NaN"
| "np_div _ NaN = NaN"
| "np_div (Fin a) _ = Fin 0"
| "np_div PInf (Fin b) = (if 0 \<le> b then PInf else NInf)"
| "np_div NInf (Fin b) = (if 0 \<le> b then NInf else PInf)"
| "np_div _ _ = NaN"

fun np_log10_scalar :: "npfloat \<Rightarrow> npfloat" where
  "np_log10_scalar (Fin a) = np_log10 a"
| "np_log10_scalar PInf = PInf"
| "np_log10_scalar _ = NaN"

definition floor_const :: real where
  "floor_const = 1 / 10 ^ 10"

record stats =
  rms :: npfloat
  rms_db :: npfloat
  peak :: npfloat
  peak_db :: npfloat
  crest_factor :: npfloat
  crest_factor_db :: npfloat
  low_freq_power :: npfloat
  mid_freq_power :: npfloat
  bird_freq_power :: npfloat
  high_freq_power :: npfloat
  snr_bird_to_low :: npfloat
  snr_bird_to_mid :: npfloat
  spectral_centroid :: npfloat
  spectral_rolloff :: npfloat

definition mean :: "real list \<Rightarrow> real" where
  "mean xs = sum_list xs / real (length xs)"

text \<open>
  \<^verbatim>\<open>np.mean(psd_db[mask]) if np.any(mask) else -np.inf\<close>, the mask computed from
  \<open>freq\<close>. Indexing with a boolean mask of another length raises \<open>IndexError\<close>; it is
  reached only when the mask selects something.
\<close>

definition band_power :: "(real \<Rightarrow> bool) \<Rightarrow> real list \<Rightarrow> real list \<Rightarrow> py_error + npfloat" where
  "band_power in_band freq psd_db =
     (if \<not> list_ex in_band freq then Inr NInf
      else if length freq \<noteq> length psd_db then Inl IndexError
      else Inr (Fin (mean (map snd (filter (\<lambda>(f, p). in_band f) (zip freq psd_db))))))"

definition low_mask :: "real \<Rightarrow> bool" where
  "low_mask f = (f < 1000)"

definition mid_mask :: "real \<Rightarrow> bool" where
  "mid_mask f = (1000 \<le> f \<and> f < 3000)"

definition bird_mask :: "real \<Rightarrow> bool" where
  "bird_mask f = (3000 \<le> f \<and> f \<le> 8000)"

definition high_mask :: "real \<Rightarrow> bool" where
  "high_mask f = (8000 < f)"

text \<open>
  \<^verbatim>\<open>freq * psd_db\<close>: elementwise for equal lengths, an array of length one is broadcast,
  any other pair of lengths raises \<open>ValueError\<close>.
\<close>

definition np_multiply :: "real list \<Rightarrow> real list \<Rightarrow> py_error + real list" where
  "np_multiply xs ys =
     (if length xs = length ys then Inr (map2 (*) xs ys)
      else if length xs = 1 then Inr (map (\<lambda>y. hd xs * y) ys)
      else if length ys = 1 then Inr (map (\<lambda>x. x * hd ys) xs)
      else Inl ValueError)"

definition spectral_centroid_of :: "real list \<Rightarrow> real list \<Rightarrow> py_error + npfloat" where
  "spectral_centroid_of freq psd_db =
     (case np_multiply freq psd_db of
        Inl e \<Rightarrow> Inl e
      | Inr weighted \<Rightarrow> Inr (np_div (Fin (sum_list weighted)) (Fin (sum_list psd_db))))"

fun cumsum_from :: "real \<Rightarrow> real list \<Rightarrow> real list" where
  "cumsum_from acc [] = []"
| "cumsum_from acc (x # xs) = (acc + x) # cumsum_from (acc + x) xs"

definition cumsum :: "real list \<Rightarrow> real list" where
  "cumsum xs = cumsum_from 0 xs"

text \<open>
  Lines 276 to 278:
  \<^verbatim>\<open>
  cumsum = np.cumsum(psd_db)
  rolloff_idx = np.where(cumsum >= 0.85 * cumsum[-1])[0]
  stats['spectral_rolloff'] = freq[rolloff_idx[0]] if len(rolloff_idx) > 0 else 0
  \<close>
  \<open>cumsum[-1]\<close> on an empty array and \<open>freq[i]\<close> beyond the end raise \<open>IndexError\<close>.
\<close>

definition spectral_rolloff_of :: "real list \<Rightarrow> real list \<Rightarrow> py_error + npfloat" where
  "spectral_rolloff_of freq psd_db =
     (let cs = cumsum psd_db
      in if cs = [] then Inl IndexError
         else let rolloff_idx = filter (\<lambda>i. 0.85 * last cs \<le> cs ! i) [0..<length cs]
              in if 0 < length rolloff_idx
                 then (if hd rolloff_idx < length freq then Inr (Fin (freq ! hd rolloff_idx))
                       else Inl IndexError)
                 else Inr (Fin 0))"

text \<open>
  \<^verbatim>\<open>compute_statistics\<close> (lines 220 to 280). On an empty \<open>audio_data\<close> the mean is \<open>nan\<close>
  with a warning and \<^verbatim>\<open>np.max\<close> then raises \<open>ValueError\<close>.
\<close>

definition compute_statistics ::
  "real list \<Rightarrow> real list \<Rightarrow> real list \<Rightarrow> py_error + stats" where
  "compute_statistics audio_data freq psd_db =
     (if audio_data = [] then Inl ValueError
      else
        let rms_v = Fin (sqrt (mean (map (\<lambda>x. x\<^sup>2) audio_data)));
            rms_db_v = np_scale 20 (np_log10_scalar (np_add rms_v (Fin floor_const)));
            peak_v = Fin (Max (set (map abs audio_data)));
            peak_db_v = np_scale 20 (np_log10_scalar (np_add peak_v (Fin floor_const)));
            crest_v = np_div peak_v (np_add rms_v (Fin floor_const));
            crest_db_v = np_scale 20 (np_log10_scalar crest_v)
        in case band_power low_mask freq psd_db of Inl e \<Rightarrow> Inl e | Inr low \<Rightarrow>
           case band_power mid_mask freq psd_db of Inl e \<Rightarrow> Inl e | Inr mid \<Rightarrow>
           case band_power bird_mask freq psd_db of Inl e \<Rightarrow> Inl e | Inr bird \<Rightarrow>
           case band_power high_mask freq psd_db of Inl e \<Rightarrow> Inl e | Inr high \<Rightarrow>
           case spectral_centroid_of freq psd_db of Inl e \<Rightarrow> Inl e | Inr centroid \<Rightarrow>
           case spectral_rolloff_of freq psd_db of Inl e \<Rightarrow> Inl e | Inr rolloff \<Rightarrow>
             Inr \<lparr>rms = rms_v, rms_db = rms_db_v, peak = peak_v, peak_db = peak_db_v,
                  crest_factor = crest_v, crest_factor_db = crest_db_v,
                  low_freq_power = low, mid_freq_power = mid,
                  bird_freq_power = bird, high_freq_power = high,
                  snr_bird_to_low = np_sub bird low, snr_bird_to_mid = np_sub bird mid,
                  spectral_centroid = centroid, spectral_rolloff = rolloff\<rparr>)"

subsection \<open>One stream: capture worker and coordinator, interleaved\<close>

text \<open>
  The worker thread of a stream (\<^verbatim>\<open>capture_stream_ffmpeg\<close>) and the coordinator
  (\<^verbatim>\<open>analyze_streams\<close>) share only the stream's queue. Their interleavings are the
  lists of events below; each event is one access to the queue together with the
  thread-local work around it. Streams do not share state, so the events of one stream
  are the projection of a run of the whole analyzer.

  The worker is at the head of its loop (\<open>Reading\<close>), between the failed
  \<open>put_nowait\<close> and the \<open>get_nowait\<close> (\<open>Evicting\<close>), between the \<open>get_nowait\<close> and the
  second \<open>put_nowait\<close> (\<open>Reputting\<close>), past its loop (\<open>Stopped\<close>), or left it by an
  exception (\<open>Crashed\<close>).
\<close>

type_synonym frame = "real \<times> real list"

datatype worker_pc = Reading | Evicting frame | Reputting frame | Stopped | Crashed py_error

datatype event =
    Read "8 word list" real
  | Evict
  | Reput
  | StopFlag
  | Get

record stream_state =
  audio_queue :: "frame py_queue"
  worker :: worker_pc
  res_freq :: "real list option"
  res_psd :: "real list option"
  res_stats :: "stats option"
  snr_history :: "npfloat list"
  timestamp_history :: "real list"
  bird_power_history :: "npfloat list"
  low_power_history :: "npfloat list"
  analysis_count :: nat
  coordinator_error :: "py_error option"

text \<open>The state \<^verbatim>\<open>__init__\<close> builds for a stream, with the worker about to start.\<close>

definition init_stream :: stream_state where
  "init_stream =
     \<lparr>audio_queue = new_queue 10, worker = Reading,
      res_freq = None, res_psd = None, res_stats = None,
      snr_history = [], timestamp_history = [],
      bird_power_history = [], low_power_history = [],
      analysis_count = 0, coordinator_error = None\<rparr>"

text \<open>
  \<open>Read raw ts\<close>: the worker's \<open>read\<close> returned \<open>raw\<close> and \<open>time.time()\<close> returned \<open>ts\<close>
  (lines 155 to 176). \<open>Evict\<close> and \<open>Reput\<close>: lines 180 and 181. \<open>StopFlag\<close>: the worker
  finds \<open>self.running\<close> false at the head of its loop. An event of the worker that does
  not fit where the worker is leaves the state as it is.
\<close>

definition worker_step :: "config \<Rightarrow> stream_state \<Rightarrow> event \<Rightarrow> stream_state" where
  "worker_step cfg s ev =
     (case (ev, worker s) of
        (Read raw ts, Reading) \<Rightarrow>
          (case capture_chunk cfg raw of
             None \<Rightarrow> s\<lparr>worker := Stopped\<rparr>
           | Some (Inl e) \<Rightarrow> s\<lparr>worker := Crashed e\<rparr>
           | Some (Inr audio_data) \<Rightarrow>
               (case put_nowait (audio_queue s) (ts, audio_data) of
                  Inr q \<Rightarrow> s\<lparr>audio_queue := q\<rparr>
                | Inl _ \<Rightarrow> s\<lparr>worker := Evicting (ts, audio_data)\<rparr>))
      | (Evict, Evicting item) \<Rightarrow>
          (case get_nowait (audio_queue s) of
             Inl _ \<Rightarrow> s\<lparr>worker := Reading\<rparr>
           | Inr (_, q) \<Rightarrow> s\<lparr>audio_queue := q, worker := Reputting item\<rparr>)
      | (Reput, Reputting item) \<Rightarrow>
          (case put_nowait (audio_queue s) item of
             Inl _ \<Rightarrow> s\<lparr>worker := Reading\<rparr>
           | Inr q \<Rightarrow> s\<lparr>audio_queue := q, worker := Reading\<rparr>)
      | (StopFlag, Reading) \<Rightarrow> s\<lparr>worker := Stopped\<rparr>
      | _ \<Rightarrow> s)"

text \<open>
  \<open>Get\<close>: the coordinator's loop body for the stream (lines 322 to 345). \<open>get\<close> with a
  timeout that finds the queue empty raises \<open>Empty\<close>, which is caught; an exception of
  the analysis is not caught and ends \<^verbatim>\<open>analyze_streams\<close>.
\<close>

definition coordinator_step :: "config \<Rightarrow> stream_state \<Rightarrow> stream_state" where
  "coordinator_step cfg s =
     (if coordinator_error s \<noteq> None then s
      else case get_nowait (audio_queue s) of
             Inl _ \<Rightarrow> s
           | Inr ((timestamp, audio_data), q) \<Rightarrow>
               (case analyze_frequency_spectrum cfg audio_data of
                  Inl e \<Rightarrow> s\<lparr>audio_queue := q, coordinator_error := Some e\<rparr>
                | Inr (freq, psd_db) \<Rightarrow>
                    (case compute_statistics audio_data freq psd_db of
                       Inl e \<Rightarrow> s\<lparr>audio_queue := q, coordinator_error := Some e\<rparr>
                     | Inr st \<Rightarrow>
                         s\<lparr>audio_queue := q,
                           res_freq := Some freq, res_psd := Some psd_db, res_stats := Some st,
                           snr_history := snr_history s @ [snr_bird_to_low st],
                           timestamp_history := timestamp_history s @ [timestamp],
                           bird_power_history := bird_power_history s @ [bird_freq_power st],
                           low_power_history := low_power_history s @ [low_freq_power st],
                           analysis_count := analysis_count s + 1\<rparr>)))"

definition step :: "config \<Rightarrow> stream_state \<Rightarrow> event \<Rightarrow> stream_state" where
  "step cfg s ev = (if ev = Get then coordinator_step cfg s else worker_step cfg s ev)"

fun run :: "config \<Rightarrow> stream_state \<Rightarrow> event list \<Rightarrow> stream_state" where
  "run cfg s [] = s"
| "run cfg s (ev # evs) = run cfg (step cfg s ev) evs"

text \<open>The contract of the source's \<open>read(n)\<close>: at most \<open>n\<close> bytes.\<close>

fun read_ok :: "config \<Rightarrow> event \<Rightarrow> bool" where
  "read_ok cfg (Read raw ts) = (int (length raw) \<le> chunk_bytes cfg)"
| "read_ok cfg _ = True"

text \<open>The clock readings of the worker, in the order of the events.\<close>

fun stamps :: "event list \<Rightarrow> real list" where
  "stamps [] = []"
| "stamps (Read raw ts # evs) = ts # stamps evs"
| "stamps (_ # evs) = stamps evs"

text \<open>
  The frames alive in a state: those in the queue, then the one the worker holds
  between its queue operations.
\<close>

fun pending :: "worker_pc \<Rightarrow> frame list" where
  "pending (Evicting item) = [item]"
| "pending (Reputting item) = [item]"
| "pending _ = []"

definition frames_of :: "stream_state \<Rightarrow> frame list" where
  "frames_of s = items (audio_queue s) @ pending (worker s)"

definition all_stamps :: "stream_state \<Rightarrow> real list" where
  "all_stamps s = timestamp_history s @ map fst (frames_of s)"

text \<open>The queue of a stream is bounded and within its bound.\<close>

definition queue_bounded :: "stream_state \<Rightarrow> bool" where
  "queue_bounded s =
     (0 < maxsize (audio_queue s)
      \<and> int (length (items (audio_queue s))) \<le> maxsize (audio_queue s))"

text \<open>Every frame alive is non-empty and of the configured length, and no thread has failed.\<close>

definition frames_inv :: "config \<Rightarrow> stream_state \<Rightarrow> bool" where
  "frames_inv cfg s =
     ((\<forall>f \<in> set (frames_of s). snd f \<noteq> [] \<and> int (length (snd f)) = chunk_size cfg)
      \<and> (\<forall>e. worker s \<noteq> Crashed e) \<and> coordinator_error s = None)"

text \<open>
  The histories of a stream and its counter of analyzed chunks
  (\<^verbatim>\<open>analysis_count[name]\<close>) move together.
\<close>

definition history_inv :: "stream_state \<Rightarrow> bool" where
  "history_inv s =
     (length (timestamp_history s) = analysis_count s
      \<and> length (snr_history s) = analysis_count s
      \<and> length (bird_power_history s) = analysis_count s
      \<and> length (low_power_history s) = analysis_count s)"

text \<open>
  An event dequeues and analyzes a frame: it is the coordinator's, the queue has an entry,
  and neither the spectrum nor the statistics raise. \<open>analyzed_frames\<close> counts these
  events along a run.
\<close>

definition analyzes :: "config \<Rightarrow> stream_state \<Rightarrow> event \<Rightarrow> bool" where
  "analyzes cfg s ev =
     (ev = Get \<and> coordinator_error s = None \<and>
      (case get_nowait (audio_queue s) of
         Inl _ \<Rightarrow> False
       | Inr ((timestamp, audio_data), q) \<Rightarrow>
           (case analyze_frequency_spectrum cfg audio_data of
              Inl _ \<Rightarrow> False
            | Inr (freq, psd_db) \<Rightarrow>
                (case compute_statistics audio_data freq psd_db of
                   Inl _ \<Rightarrow> False
                 | Inr _ \<Rightarrow> True))))"

fun analyzed_frames :: "config \<Rightarrow> stream_state \<Rightarrow> event list \<Rightarrow> nat" where
  "analyzed_frames cfg s [] = 0"
| "analyzed_frames cfg s (ev # evs) =
     (if analyzes cfg s ev then 1 else 0) + analyzed_frames cfg (step cfg s ev) evs"

subsection \<open>The specification's wording of the metrics\<close>

text \<open>
  The band power of the specification: the arithmetic mean of \<open>power_db\<close> over the bins
  whose frequency is in the band, negative infinity when there is no such bin.
\<close>

definition spec_band_mean :: "(real \<Rightarrow> bool) \<Rightarrow> real list \<Rightarrow> real list \<Rightarrow> npfloat" where
  "spec_band_mean in_band freq power_db =
     (let bins = {i. i < length freq \<and> in_band (freq ! i)}
      in if bins = {} then NInf
         else Fin ((\<Sum>i\<in>bins. power_db ! i) / real (card bins)))"

text \<open>
  The rolloff of the specification: the frequency of the lowest-indexed bin at which the
  cumulative sum of \<open>power_db\<close> reaches 85 percent of the total, zero when no bin does.
\<close>

definition reaches_rolloff :: "real list \<Rightarrow> nat \<Rightarrow> bool" where
  "reaches_rolloff power_db i =
     (i < length power_db \<and> 0.85 * sum_list power_db \<le> sum_list (take (Suc i) power_db))"

definition spec_rolloff :: "real list \<Rightarrow> real list \<Rightarrow> npfloat" where
  "spec_rolloff freq power_db =
     (if \<exists>i. reaches_rolloff power_db i
      then Fin (freq ! (LEAST i. reaches_rolloff power_db i))
      else Fin 0)"

text \<open>The Hann window of the specification, sample \<open>j\<close> of \<open>n\<close>.\<close>

definition spec_hann :: "nat \<Rightarrow> nat \<Rightarrow> real" where
  "spec_hann n j = (if n = 1 then 1 else 0.5 - 0.5 * cos (2 * pi * real j / real (n - 1)))"

section \<open>Properties\<close>

subsection \<open>The buffer\<close>

lemma put_nowait_room:
  "int (length (items q)) < maxsize q \<Longrightarrow> put_nowait q x = Inr (q\<lparr>items := items q @ [x]\<rparr>)"
  by (simp add: put_nowait_def)

lemma put_nowait_full:
  "0 < maxsize q \<Longrightarrow> maxsize q \<le> int (length (items q)) \<Longrightarrow> put_nowait q x = Inl Full"
  by (simp add: put_nowait_def)

lemma enqueue_frame_room:
  "int (length (items q)) < maxsize q \<Longrightarrow> enqueue_frame q x = q\<lparr>items := items q @ [x]\<rparr>"
  by (simp add: enqueue_frame_def put_nowait_room)

lemma enqueue_frame_full:
  assumes "0 < maxsize q" and "int (length (items q)) = maxsize q"
  shows "enqueue_frame q x = q\<lparr>items := tl (items q) @ [x]\<rparr>"
proof -
  from assms obtain a rest where q: "items q = a # rest"
    by (cases "items q") auto
  from assms have full: "put_nowait q x = Inl Full"
    by (simp add: put_nowait_full)
  have got: "get_nowait q = Inr (a, q\<lparr>items := rest\<rparr>)"
    by (simp add: get_nowait_def q)
  from assms q have "int (length (items (q\<lparr>items := rest\<rparr>))) < maxsize (q\<lparr>items := rest\<rparr>)"
    by simp
  then have "put_nowait (q\<lparr>items := rest\<rparr>) x = Inr (q\<lparr>items := rest @ [x]\<rparr>)"
    by (simp add: put_nowait_def)
  with full got q show ?thesis
    by (simp add: enqueue_frame_def)
qed

lemma enqueue_frame_maxsize: "maxsize (enqueue_frame q x) = maxsize q"
  by (auto simp: enqueue_frame_def put_nowait_def get_nowait_def
      split: sum.splits list.splits prod.splits if_splits)

lemma enqueue_all_maxsize: "maxsize (enqueue_all q xs) = maxsize q"
  by (induction xs arbitrary: q) (simp_all add: enqueue_frame_maxsize)

lemma enqueue_frame_bounded:
  assumes "0 < maxsize q" and "int (length (items q)) \<le> maxsize q"
  shows "int (length (items (enqueue_frame q x))) \<le> maxsize q"
proof (cases "int (length (items q)) = maxsize q")
  case True
  with assms(1) have "enqueue_frame q x = q\<lparr>items := tl (items q) @ [x]\<rparr>"
    by (simp add: enqueue_frame_full)
  moreover from True assms(1) have "items q \<noteq> []"
    by auto
  ultimately show ?thesis
    using True by simp
next
  case False
  with assms(2) have "int (length (items q)) < maxsize q"
    by simp
  then show ?thesis
    by (simp add: enqueue_frame_room)
qed

lemma enqueue_all_bounded:
  "0 < maxsize q \<Longrightarrow> int (length (items q)) \<le> maxsize q \<Longrightarrow>
   int (length (items (enqueue_all q xs))) \<le> maxsize q"
proof (induction xs arbitrary: q)
  case Nil
  then show ?case by simp
next
  case (Cons x xs)
  have "int (length (items (enqueue_all (enqueue_frame q x) xs))) \<le> maxsize (enqueue_frame q x)"
    using Cons.prems by (intro Cons.IH) (simp_all add: enqueue_frame_maxsize enqueue_frame_bounded)
  then show ?case
    by (simp add: enqueue_frame_maxsize)
qed

text \<open>What one enqueue leaves: the newest entry behind the most recent \<open>K - 1\<close> older ones.\<close>

lemma enqueue_frame_items:
  assumes "0 < maxsize q" and "int (length (items q)) \<le> maxsize q"
  shows "items (enqueue_frame q x) =
         drop (length (items q) + 1 - nat (maxsize q)) (items q @ [x])"
proof (cases "int (length (items q)) = maxsize q")
  case True
  with assms(1) obtain a rest where ne: "items q = a # rest"
    by (cases "items q") auto
  from True have "length (items q) + 1 - nat (maxsize q) = 1"
    by linarith
  moreover from True assms(1) have "items (enqueue_frame q x) = tl (items q) @ [x]"
    by (simp add: enqueue_frame_full)
  ultimately show ?thesis
    by (simp add: ne)
next
  case False
  with assms(2) have lt: "int (length (items q)) < maxsize q"
    by simp
  then have "length (items q) + 1 - nat (maxsize q) = 0"
    by linarith
  with lt show ?thesis
    by (simp add: enqueue_frame_room)
qed

lemma enqueue_all_items:
  "0 < maxsize q \<Longrightarrow> int (length (items q)) \<le> maxsize q \<Longrightarrow>
   items (enqueue_all q xs) =
   drop (length (items q) + length xs - nat (maxsize q)) (items q @ xs)"
proof (induction xs arbitrary: q)
  case Nil
  then have "length (items q) - nat (maxsize q) = 0"
    by linarith
  then show ?case by simp
next
  case (Cons x xs)
  define q1 where "q1 = enqueue_frame q x"
  define k where "k = nat (maxsize q)"
  define d where "d = length (items q) + 1 - k"
  have k: "0 < k" "length (items q) \<le> k"
    using Cons.prems by (simp_all add: k_def)
  have items: "items q1 = drop d (items q @ [x])"
    unfolding q1_def d_def k_def using Cons.prems by (rule enqueue_frame_items)
  have size: "maxsize q1 = maxsize q"
    by (simp add: q1_def enqueue_frame_maxsize)
  have len: "length (items q1) = length (items q) + 1 - d"
    by (simp add: items)
  have bounded: "int (length (items q1)) \<le> maxsize q1"
    unfolding q1_def using Cons.prems
    by (simp add: enqueue_frame_maxsize enqueue_frame_bounded)
  have "items (enqueue_all q1 xs) =
        drop (length (items q1) + length xs - nat (maxsize q1)) (items q1 @ xs)"
    using Cons.prems bounded by (intro Cons.IH) (simp_all add: size)
  also have "\<dots> = drop (length (items q1) + length xs - k) (drop d (items q @ [x]) @ xs)"
    by (simp add: size items k_def)
  also have "drop d (items q @ [x]) @ xs = drop d (items q @ x # xs)"
    using k by (simp add: d_def)
  also have "drop (length (items q1) + length xs - k) (drop d (items q @ x # xs)) =
             drop (length (items q1) + length xs - k + d) (items q @ x # xs)"
    by (rule drop_drop)
  also have "length (items q1) + length xs - k + d = length (items q) + length (x # xs) - k"
    using k by (simp add: len d_def)
  finally show ?case
    by (simp add: q1_def k_def)
qed

lemma drain_items: "drain q = items q"
proof (induction "items q" arbitrary: q)
  case Nil
  then show ?case
    by (subst drain.simps) (simp add: get_nowait_def)
next
  case (Cons a rest)
  from Cons.hyps(2) [symmetric] have "get_nowait q = Inr (a, q\<lparr>items := rest\<rparr>)"
    by (simp add: get_nowait_def)
  moreover have "drain (q\<lparr>items := rest\<rparr>) = rest"
    using Cons.hyps(1) [of "q\<lparr>items := rest\<rparr>"] by simp
  ultimately show ?case
    using Cons.hyps(2) [symmetric] by (subst drain.simps) simp
qed

text \<open>The bound holds in every interleaving of the worker and the coordinator.\<close>

lemma put_nowait_bounded:
  assumes "0 < maxsize q" and "int (length (items q)) \<le> maxsize q" and "put_nowait q x = Inr q'"
  shows "maxsize q' = maxsize q \<and> int (length (items q')) \<le> maxsize q"
  using assms by (auto simp: put_nowait_def split: if_splits)

lemma get_nowait_bounded:
  assumes "int (length (items q)) \<le> maxsize q" and "get_nowait q = Inr (x, q')"
  shows "maxsize q' = maxsize q \<and> int (length (items q')) \<le> maxsize q"
  using assms by (auto simp: get_nowait_def split: list.splits)

lemma worker_step_queue_bounded:
  assumes "queue_bounded s"
  shows "queue_bounded (worker_step cfg s ev)
       \<and> maxsize (audio_queue (worker_step cfg s ev)) = maxsize (audio_queue s)"
  using assms
  by (cases ev; cases "worker s")
    (auto simp: worker_step_def queue_bounded_def put_nowait_def get_nowait_def
      split: option.splits sum.splits list.splits)

lemma coordinator_step_queue_bounded:
  assumes "queue_bounded s"
  shows "queue_bounded (coordinator_step cfg s)
       \<and> maxsize (audio_queue (coordinator_step cfg s)) = maxsize (audio_queue s)"
  using assms
  by (auto simp: coordinator_step_def queue_bounded_def get_nowait_def
      split: sum.splits list.splits prod.splits)

lemma step_queue_bounded:
  "queue_bounded s \<Longrightarrow>
   queue_bounded (step cfg s ev) \<and> maxsize (audio_queue (step cfg s ev)) = maxsize (audio_queue s)"
  by (simp add: step_def worker_step_queue_bounded coordinator_step_queue_bounded)

lemma run_queue_bounded:
  "queue_bounded s \<Longrightarrow>
   queue_bounded (run cfg s evs) \<and> maxsize (audio_queue (run cfg s evs)) = maxsize (audio_queue s)"
  by (induction evs arbitrary: s) (simp_all add: step_queue_bounded)

lemma init_queue_bounded: "queue_bounded init_stream \<and> maxsize (audio_queue init_stream) = 10"
  by (simp add: queue_bounded_def init_stream_def new_queue_def)

lemma stream_queue_at_most_ten:
  "length (items (audio_queue (run cfg init_stream evs))) \<le> 10"
  using run_queue_bounded [of init_stream cfg evs] init_queue_bounded
  by (simp add: queue_bounded_def)

text \<open>
  Claim C1. A buffer of capacity \<open>K\<close> (a positive \<open>maxsize\<close>; the analyzer's own queues have
  \<open>maxsize = 10\<close>) never holds more than \<open>K\<close> entries under the worker's enqueue, and
  the queue of a stream never holds more than 10 in any interleaving of its worker and
  the coordinator; an enqueue on a full buffer evicts the oldest entry and admits the
  newest without raising or blocking; and after \<open>K + 1\<close> enqueues into a fresh buffer
  with no dequeue in between, a drain yields exactly the \<open>K\<close> most recent entries in FIFO
  order.
\<close>

theorem stream_buffer_drop_oldest:
  fixes q :: "'a py_queue"
  assumes "0 < maxsize q" and "int (length (items q)) \<le> maxsize q"
  shows "int (length (items (enqueue_all q xs))) \<le> maxsize q
       \<and> length (items (audio_queue (run cfg init_stream evs))) \<le> 10
       \<and> (int (length (items q)) = maxsize q \<longrightarrow>
            items (enqueue_frame q x) = tl (items q) @ [x])
       \<and> (items q = [] \<and> int (length xs) = maxsize q + 1 \<longrightarrow>
            drain (enqueue_all q xs) = tl xs \<and> int (length (tl xs)) = maxsize q)"
proof (intro conjI impI)
  show "int (length (items (enqueue_all q xs))) \<le> maxsize q"
    using assms by (rule enqueue_all_bounded)
next
  show "length (items (audio_queue (run cfg init_stream evs))) \<le> 10"
    by (rule stream_queue_at_most_ten)
next
  assume "int (length (items q)) = maxsize q"
  with assms(1) show "items (enqueue_frame q x) = tl (items q) @ [x]"
    by (simp add: enqueue_frame_full)
next
  assume fresh: "items q = [] \<and> int (length xs) = maxsize q + 1"
  with assms(1) have "length xs = nat (maxsize q) + 1"
    by linarith
  with fresh have "length (items q) + length xs - nat (maxsize q) = 1"
    by simp
  with assms have "items (enqueue_all q xs) = drop 1 (items q @ xs)"
    by (simp add: enqueue_all_items)
  with fresh show "drain (enqueue_all q xs) = tl xs"
    by (simp add: drain_items drop_Suc)
next
  assume "items q = [] \<and> int (length xs) = maxsize q + 1"
  with assms(1) show "int (length (tl xs)) = maxsize q"
    by (cases xs) auto
qed

text \<open>
  The scenario of the specification: capacity 2, frames \<open>A\<close>, \<open>B\<close>, \<open>C\<close> enqueued in order,
  then a drain yields \<open>B\<close> then \<open>C\<close>.
\<close>

theorem stream_buffer_drop_oldest_witness:
  "0 < maxsize (new_queue 2 :: string py_queue)
   \<and> int (length (items (new_queue 2 :: string py_queue))) \<le> maxsize (new_queue 2 :: string py_queue)
   \<and> int (length (items (enqueue_all (new_queue 2) [''A'', ''B'', ''C'']))) \<le> 2
   \<and> drain (enqueue_all (new_queue 2) [''A'', ''B'', ''C'']) = [''B'', ''C'']"
  using stream_buffer_drop_oldest [of "new_queue 2 :: string py_queue" "[''A'', ''B'', ''C'']"]
  by (simp add: new_queue_def)

text \<open>
  The worker's three queue events, run with no event of the coordinator between them,
  are the enqueue above.
\<close>

lemma worker_enqueue_uninterrupted:
  assumes "worker s = Reading" and "capture_chunk cfg raw = Some (Inr audio_data)"
  shows "audio_queue (run cfg s [Read raw ts, Evict, Reput])
           = enqueue_frame (audio_queue s) (ts, audio_data)
       \<and> worker (run cfg s [Read raw ts, Evict, Reput]) = Reading"
proof (cases "put_nowait (audio_queue s) (ts, audio_data)")
  case (Inr q)
  with assms show ?thesis
    by (simp add: step_def worker_step_def enqueue_frame_def)
next
  case full: (Inl e)
  show ?thesis
  proof (cases "get_nowait (audio_queue s)")
    case (Inl e')
    with assms full show ?thesis
      by (simp add: step_def worker_step_def enqueue_frame_def)
  next
    case (Inr r)
    obtain old q1 where r: "r = (old, q1)"
      by (cases r)
    with assms full Inr show ?thesis
      by (cases "put_nowait q1 (ts, audio_data)")
        (simp_all add: step_def worker_step_def enqueue_frame_def)
  qed
qed

text \<open>
  A read of zero bytes ends the worker and changes nothing else of the stream. With a
  negative chunk size there is no such read: the call raises and the worker leaves its
  loop by the exception.
\<close>

lemma negative_chunk_read_raises:
  "chunk_bytes cfg < 0 \<Longrightarrow> worker s = Reading \<Longrightarrow>
   worker_step cfg s (Read raw ts) = s\<lparr>worker := Crashed ValueError\<rparr>"
  by (simp add: worker_step_def capture_chunk_def)

lemma zero_read_stops_worker:
  "0 \<le> chunk_bytes cfg \<Longrightarrow>
   worker_step cfg s (Read [] ts) = (if worker s = Reading then s\<lparr>worker := Stopped\<rparr> else s)"
  by (cases "worker s") (simp_all add: worker_step_def capture_chunk_def)

subsection \<open>PCM conversion\<close>

text \<open>
  Claim C6. The conversion maps every 16-bit signed sample code into \<open>[-1, 1)\<close>: the
  minimum code \<open>-32768\<close> maps to exactly \<open>-1\<close>, the maximum code \<open>32767\<close> to
  \<open>32767/32768\<close>, strictly below \<open>1\<close>.
\<close>

theorem pcm_to_float_range:
  "- 1 \<le> pcm_to_float w \<and> pcm_to_float w < 1
   \<and> pcm_to_float (- 32768) = - 1
   \<and> pcm_to_float 32767 = 32767 / 32768
   \<and> pcm_to_float 32767 < 1"
proof -
  have lo: "- 32768 \<le> sint w"
    using sint_ge [of w] by simp
  have hi: "sint w < 32768"
    using sint_lt [of w] by simp
  have "- 32768 \<le> real_of_int (sint w)"
    using lo by linarith
  then have "- 1 \<le> pcm_to_float w"
    unfolding pcm_to_float_def by linarith
  moreover have "real_of_int (sint w) < 32768"
    using hi by linarith
  then have "pcm_to_float w < 1"
    unfolding pcm_to_float_def by linarith
  moreover have "sint (- 32768 :: 16 word) = - 32768"
    by simp
  then have "pcm_to_float (- 32768) = - 1"
    by (simp add: pcm_to_float_def)
  moreover have "sint (32767 :: 16 word) = 32767"
    by simp
  then have "pcm_to_float 32767 = 32767 / 32768"
    by (simp add: pcm_to_float_def)
  ultimately show ?thesis
    by simp
qed

subsection \<open>The chunk size\<close>

lemma round_half_even_of_int: "round_half_even (real_of_int k) = k"
  by (simp add: round_half_even_def)

lemma ulp_exponent_eq:
  assumes "x \<noteq> 0" and "2 powr real_of_int e \<le> \<bar>x\<bar>" and "\<bar>x\<bar> < 2 powr real_of_int (e + 1)"
    and "- 1022 \<le> e"
  shows "ulp_exponent x = e - 52"
proof -
  from assms(1) have "0 < \<bar>x\<bar>"
    by simp
  then have "\<lfloor>log 2 \<bar>x\<bar>\<rfloor> = e"
    using assms(2,3) by (simp add: floor_log_eq_powr_iff)
  with assms(4) show ?thesis
    by (simp add: ulp_exponent_def)
qed

lemma round_double_eq:
  assumes "x \<noteq> 0" and "2 powr real_of_int e \<le> \<bar>x\<bar>" and "\<bar>x\<bar> < 2 powr real_of_int (e + 1)"
    and "- 1022 \<le> e"
    and "round_half_even (x / 2 powr real_of_int (e - 52)) = m"
    and "\<bar>real_of_int m * 2 powr real_of_int (e - 52)\<bar> < 2 ^ 1024"
  shows "round_double x = Fin (real_of_int m * 2 powr real_of_int (e - 52))"
  using assms(1,5,6) ulp_exponent_eq [OF assms(1-4)]
  by (simp add: round_double_def Let_def)

text \<open>An integer of at most 53 bits is a double.\<close>

lemma round_double_of_int:
  assumes "\<bar>n\<bar> \<le> 2 ^ 53"
  shows "round_double (real_of_int n) = Fin (real_of_int n)"
proof (cases "n = 0")
  case True
  then show ?thesis by (simp add: round_double_def)
next
  case False
  define x where "x = real_of_int n"
  define e where "e = \<lfloor>log 2 \<bar>x\<bar>\<rfloor>"
  from False have "1 \<le> \<bar>n\<bar>"
    by linarith
  then have "real_of_int 1 \<le> real_of_int \<bar>n\<bar>"
    by (simp only: of_int_le_iff)
  then have x1: "1 \<le> \<bar>x\<bar>"
    by (simp add: x_def)
  from assms have "real_of_int \<bar>n\<bar> \<le> real_of_int (2 ^ 53)"
    by (simp only: of_int_le_iff)
  then have x53: "\<bar>x\<bar> \<le> 2 ^ 53"
    by (simp add: x_def)
  have xpos: "0 < \<bar>x\<bar>"
    using x1 by simp
  have e: "2 powr real_of_int e \<le> \<bar>x\<bar>" "\<bar>x\<bar> < 2 powr real_of_int (e + 1)"
    using floor_log_eq_powr_iff [of "\<bar>x\<bar>" 2 e] xpos by (simp_all add: e_def)
  have e0: "0 \<le> e"
    unfolding e_def using x1 by simp
  have "(2::real) powr 53 = 2 ^ 53"
    by simp
  with e(1) x53 have le: "(2::real) powr real_of_int e \<le> 2 powr 53"
    by linarith
  have "1 < (2::real)"
    by simp
  from powr_le_cancel_iff [OF this, of "real_of_int e" 53] le have "real_of_int e \<le> 53"
    by blast
  then have e53: "e \<le> 53"
    by simp
  have ulp: "ulp_exponent x = e - 52"
    using e0 by (simp add: ulp_exponent_def e_def)
  have "\<exists>k. x / 2 powr real_of_int (e - 52) = real_of_int k"
  proof (cases "e \<le> 52")
    case True
    then have "2 powr real_of_int (e - 52) = inverse (2 ^ nat (52 - e))"
      using powr_real_of_int [of 2 "e - 52"] by (cases "e = 52") simp_all
    then have "x / 2 powr real_of_int (e - 52) = real_of_int (n * 2 ^ nat (52 - e))"
      by (simp add: x_def divide_inverse)
    then show ?thesis
      by blast
  next
    case False
    with e53 have e_eq: "e = 53"
      by simp
    with e(1) x53 have "\<bar>x\<bar> = 2 ^ 53"
      by (simp add: powr_real_of_int)
    then have "x = 2 ^ 53 \<or> x = - (2 ^ 53)"
      by (simp add: abs_if split: if_splits)
    then show ?thesis
    proof
      assume "x = 2 ^ 53"
      with e_eq have "x / 2 powr real_of_int (e - 52) = real_of_int (2 ^ 52)"
        by simp
      then show ?thesis
        by (rule exI)
    next
      assume "x = - (2 ^ 53)"
      with e_eq have "x / 2 powr real_of_int (e - 52) = real_of_int (- (2 ^ 52))"
        by simp
      then show ?thesis
        by (rule exI)
    qed
  qed
  then obtain k where k: "x / 2 powr real_of_int (e - 52) = real_of_int k"
    by blast
  then have scaled: "real_of_int k * 2 powr real_of_int (e - 52) = x"
    by (simp add: field_simps)
  have "\<bar>x\<bar> < 2 ^ 1024"
    using x53 by (rule le_less_trans) simp
  with False k scaled ulp show ?thesis
    by (simp add: round_double_def Let_def round_half_even_of_int x_def)
qed

lemma double_7_10: "round_double (7 / 10) = Fin (3152519739159347 / 2 ^ 52)"
proof -
  have "round_half_even (7 / 10 / 2 powr real_of_int (- 1 - 52)) = 6305039478318694"
    by (simp add: round_half_even_def powr_minus_divide)
  with round_double_eq [of "7 / 10" "- 1" 6305039478318694] show ?thesis
    by (simp add: powr_minus_divide)
qed

lemma product_48000_7_10:
  "round_double (48000 * (3152519739159347 / 2 ^ 52)) = Fin 33600"
proof -
  have "round_half_even (48000 * (3152519739159347 / 2 ^ 52) / 2 powr real_of_int (15 - 52))
        = 4617948836659200"
    by (simp add: round_half_even_def powr_minus_divide)
  with round_double_eq [of "48000 * (3152519739159347 / 2 ^ 52)" 15 4617948836659200]
  show ?thesis
    by (simp add: powr_minus_divide)
qed

lemma double_29_100: "round_double (29 / 100) = Fin (5224175567749775 / 2 ^ 54)"
proof -
  have "round_half_even (29 / 100 / 2 powr real_of_int (- 2 - 52)) = 5224175567749775"
    by (simp add: round_half_even_def powr_minus_divide)
  with round_double_eq [of "29 / 100" "- 2" 5224175567749775] show ?thesis
    by (simp add: powr_minus_divide)
qed

lemma product_48000_29_100:
  "round_double (48000 * (5224175567749775 / 2 ^ 54)) = Fin (7652600929320959 / 2 ^ 39)"
proof -
  have "round_half_even (48000 * (5224175567749775 / 2 ^ 54) / 2 powr real_of_int (13 - 52))
        = 7652600929320959"
    by (simp add: round_half_even_def powr_minus_divide)
  with round_double_eq [of "48000 * (5224175567749775 / 2 ^ 54)" 13 7652600929320959]
  show ?thesis
    by (simp add: powr_minus_divide)
qed

lemma double_7_10_exact:
  "round_double (3152519739159347 / 2 ^ 52) = Fin (3152519739159347 / 2 ^ 52)"
proof -
  have "round_half_even (3152519739159347 / 2 ^ 52 / 2 powr real_of_int (- 1 - 52))
        = 6305039478318694"
    by (simp add: round_half_even_def powr_minus_divide)
  with round_double_eq [of "3152519739159347 / 2 ^ 52" "- 1" 6305039478318694] show ?thesis
    by (simp add: powr_minus_divide)
qed

text \<open>
  The chunk size at three calls. \<open>0.7\<close> and \<open>0.29\<close> are not doubles: the double nearest to
  \<open>0.7\<close> times 48000 is just below 33600 and rounds to 33600, the double nearest to
  \<open>0.29\<close> times 48000 rounds to a double below 13920 and is truncated to 13919.
\<close>

lemma chunk_size_examples:
  "analyzer_init 48000 (7 / 10)
     = Inr \<lparr>sample_rate = 48000, chunk_duration = Fin (3152519739159347 / 2 ^ 52),
            chunk_size = 33600\<rparr>"
  "analyzer_init 48000 (29 / 100)
     = Inr \<lparr>sample_rate = 48000, chunk_duration = Fin (5224175567749775 / 2 ^ 54),
            chunk_size = 13919\<rparr>"
  "analyzer_init 48000 (3152519739159347 / 2 ^ 52)
     = Inr \<lparr>sample_rate = 48000, chunk_duration = Fin (3152519739159347 / 2 ^ 52),
            chunk_size = 33600\<rparr>"
proof -
  have rate: "int_to_double 48000 = Inr 48000"
    using round_double_of_int [of 48000] by (simp add: int_to_double_def)
  show "analyzer_init 48000 (7 / 10)
     = Inr \<lparr>sample_rate = 48000, chunk_duration = Fin (3152519739159347 / 2 ^ 52),
            chunk_size = 33600\<rparr>"
    using rate double_7_10 product_48000_7_10
    by (simp add: analyzer_init_def float_product_def py_int_def)
  show "analyzer_init 48000 (29 / 100)
     = Inr \<lparr>sample_rate = 48000, chunk_duration = Fin (5224175567749775 / 2 ^ 54),
            chunk_size = 13919\<rparr>"
    using rate double_29_100 product_48000_29_100
    by (simp add: analyzer_init_def float_product_def py_int_def)
  show "analyzer_init 48000 (3152519739159347 / 2 ^ 52)
     = Inr \<lparr>sample_rate = 48000, chunk_duration = Fin (3152519739159347 / 2 ^ 52),
            chunk_size = 33600\<rparr>"
    using rate double_7_10_exact product_48000_7_10
    by (simp add: analyzer_init_def float_product_def py_int_def)
qed

subsection \<open>Frames have the configured length\<close>

lemma length_int16_pairs: "length (int16_pairs bs) = length bs div 2"
  by (induction bs rule: int16_pairs.induct) simp_all

lemma pad_chunk_length:
  "int (length raw) \<le> chunk_bytes cfg \<Longrightarrow> int (length (pad_chunk cfg raw)) = chunk_bytes cfg"
  by (simp add: pad_chunk_def)

lemma pad_chunk_short:
  "int (length raw) \<le> chunk_bytes cfg \<Longrightarrow>
   pad_chunk cfg raw = raw @ replicate (nat (chunk_bytes cfg) - length raw) 0"
  by (auto simp: pad_chunk_def nat_diff_distrib')

lemma capture_chunk_frame:
  assumes "raw \<noteq> []" and "int (length raw) \<le> chunk_bytes cfg"
  shows "capture_chunk cfg raw = Some (Inr (map pcm_to_float (int16_pairs (pad_chunk cfg raw))))"
    and "int (length (map pcm_to_float (int16_pairs (pad_chunk cfg raw)))) = chunk_size cfg"
proof -
  have len: "int (length (pad_chunk cfg raw)) = 2 * chunk_size cfg"
    using assms(2) by (simp add: pad_chunk_length) (simp add: chunk_bytes_def bytes_per_sample_def)
  then have "even (length (pad_chunk cfg raw))"
    by presburger
  moreover from assms(2) have "0 \<le> chunk_bytes cfg"
    by linarith
  ultimately show "capture_chunk cfg raw = Some (Inr (map pcm_to_float (int16_pairs (pad_chunk cfg raw))))"
    using assms(1) by (simp add: capture_chunk_def frombuffer_int16_def)
  from len show "int (length (map pcm_to_float (int16_pairs (pad_chunk cfg raw)))) = chunk_size cfg"
    by (simp add: length_int16_pairs)
qed


subsection \<open>The analysis of a frame raises nothing\<close>

lemma length_hann: "length (hann M) = M"
  by (simp add: hann_def)

lemma hann_nonempty: "0 < M \<Longrightarrow> hann M \<noteq> []"
  using length_hann [of M] by auto

lemma analyze_ok:
  assumes "audio \<noteq> []" and "sample_rate cfg \<noteq> 0"
  shows "\<exists>freq psd. analyze_frequency_spectrum cfg audio = Inr (freq, psd)
          \<and> length freq = length audio div 2 + 1 \<and> length psd = length freq"
  using assms
  by (simp add: analyze_frequency_spectrum_def Let_def rfft_def rfftfreq_def length_hann hann_nonempty)

lemma length_cumsum_from: "length (cumsum_from acc xs) = length xs"
  by (induction xs arbitrary: acc) simp_all

lemma length_cumsum: "length (cumsum xs) = length xs"
  by (simp add: cumsum_def length_cumsum_from)

lemma band_power_ok:
  "length freq = length psd \<Longrightarrow> \<exists>v. band_power m freq psd = Inr v"
  by (simp add: band_power_def)

lemma centroid_ok:
  "length freq = length psd \<Longrightarrow> \<exists>v. spectral_centroid_of freq psd = Inr v"
  by (simp add: spectral_centroid_of_def np_multiply_def)

lemma hd_filter_upt: "filter P [0..<n] \<noteq> [] \<Longrightarrow> hd (filter P [0..<n]) < n"
proof -
  assume ne: "filter P [0..<n] \<noteq> []"
  then have "hd (filter P [0..<n]) \<in> set (filter P [0..<n])"
    by (rule hd_in_set)
  then show ?thesis by simp
qed

lemma rolloff_ok:
  assumes "length freq = length psd" and "psd \<noteq> []"
  shows "\<exists>v. spectral_rolloff_of freq psd = Inr v"
proof -
  have "cumsum psd \<noteq> []"
    using assms(2) length_cumsum [of psd] by auto
  then show ?thesis
    using assms(1) hd_filter_upt [of "\<lambda>i. 0.85 * last (cumsum psd) \<le> cumsum psd ! i" "length psd"]
    by (auto simp: spectral_rolloff_of_def Let_def length_cumsum)
qed

lemma compute_statistics_ok:
  assumes "audio \<noteq> []" and "length freq = length psd" and "psd \<noteq> []"
  shows "\<exists>st. compute_statistics audio freq psd = Inr st"
proof -
  obtain low where low: "band_power low_mask freq psd = Inr low"
    using band_power_ok [OF assms(2)] by blast
  obtain mid where mid: "band_power mid_mask freq psd = Inr mid"
    using band_power_ok [OF assms(2)] by blast
  obtain bird where bird: "band_power bird_mask freq psd = Inr bird"
    using band_power_ok [OF assms(2)] by blast
  obtain high where high: "band_power high_mask freq psd = Inr high"
    using band_power_ok [OF assms(2)] by blast
  obtain c where c: "spectral_centroid_of freq psd = Inr c"
    using centroid_ok [OF assms(2)] by blast
  obtain r where r: "spectral_rolloff_of freq psd = Inr r"
    using rolloff_ok [OF assms(2,3)] by blast
  show ?thesis
    using assms(1) by (simp add: compute_statistics_def Let_def low mid bird high c r)
qed

lemma initialized_zero_rate:
  assumes "initialized cfg" and "sample_rate cfg = 0"
  shows "chunk_size cfg = 0"
proof -
  from assms obtain c where init: "analyzer_init 0 c = Inr cfg"
    by (auto simp: initialized_def)
  have zero: "int_to_double 0 = Inr 0"
    by (simp add: int_to_double_def round_double_def)
  show ?thesis
  proof (cases "round_double c")
    case (Fin cd)
    with init zero show ?thesis
      by (auto simp: analyzer_init_def Let_def float_product_def round_double_def py_int_def)
  next
    case PInf
    with init zero show ?thesis
      by (simp add: analyzer_init_def Let_def float_product_def)
  next
    case NInf
    with init zero show ?thesis
      by (simp add: analyzer_init_def Let_def float_product_def)
  next
    case NaN
    with init zero show ?thesis
      by (simp add: analyzer_init_def Let_def float_product_def)
  qed
qed

lemma frame_analysis_ok:
  assumes "audio \<noteq> []" and "int (length audio) = chunk_size cfg" and "initialized cfg"
  shows "\<exists>freq psd st. analyze_frequency_spectrum cfg audio = Inr (freq, psd)
           \<and> compute_statistics audio freq psd = Inr st"
proof -
  from assms have "sample_rate cfg \<noteq> 0"
    using initialized_zero_rate [of cfg] by auto
  with assms(1) obtain freq psd where a: "analyze_frequency_spectrum cfg audio = Inr (freq, psd)"
    and len: "length freq = length audio div 2 + 1" "length psd = length freq"
    using analyze_ok [of audio cfg] by blast
  from len have "psd \<noteq> []"
    by auto
  with assms(1) len(2) obtain st where "compute_statistics audio freq psd = Inr st"
    using compute_statistics_ok [of audio freq psd] by auto
  with a show ?thesis
    by blast
qed

lemma put_nowait_items:
  "put_nowait q x = Inr q' \<Longrightarrow> items q' = items q @ [x]"
  by (auto simp: put_nowait_def split: if_splits)

lemma get_nowait_items:
  "get_nowait q = Inr (x, q') \<Longrightarrow> items q = x # items q'"
  by (auto simp: get_nowait_def split: list.splits)

lemma get_nowait_Empty:
  "get_nowait q = Inl e \<Longrightarrow> items q = []"
  by (auto simp: get_nowait_def split: list.splits)

lemma worker_step_frames_inv:
  assumes "read_ok cfg ev" and "frames_inv cfg s"
  shows "frames_inv cfg (worker_step cfg s ev)"
proof (cases ev)
  case (Read raw ts)
  show ?thesis
  proof (cases "worker s = Reading \<and> raw \<noteq> []")
    case True
    define a where "a = map pcm_to_float (int16_pairs (pad_chunk cfg raw))"
    from True assms(1) Read have ok: "raw \<noteq> []" "int (length raw) \<le> chunk_bytes cfg"
      by simp_all
    have c: "capture_chunk cfg raw = Some (Inr a)" and l: "int (length a) = chunk_size cfg"
      unfolding a_def by (rule capture_chunk_frame [OF ok])+
    from ok have "0 < chunk_bytes cfg"
      by (cases raw) auto
    then have "0 < chunk_size cfg"
      by (simp add: chunk_bytes_def bytes_per_sample_def)
    with l have ne: "a \<noteq> []"
      by auto
    show ?thesis
    proof (cases "put_nowait (audio_queue s) (ts, a)")
      case (Inl e)
      with True Read c have "worker_step cfg s ev = s\<lparr>worker := Evicting (ts, a)\<rparr>"
        by (simp add: worker_step_def)
      with assms(2) True l ne show ?thesis
        by (simp add: frames_inv_def frames_of_def)
    next
      case (Inr q')
      with True Read c have "worker_step cfg s ev = s\<lparr>audio_queue := q'\<rparr>"
        by (simp add: worker_step_def)
      moreover from Inr have "items q' = items (audio_queue s) @ [(ts, a)]"
        by (rule put_nowait_items)
      ultimately show ?thesis
        using assms(2) True l ne by (simp add: frames_inv_def frames_of_def)
    qed
  next
    case False
    then show ?thesis
      using assms Read
      by (auto simp: worker_step_def frames_inv_def frames_of_def capture_chunk_def
          split: worker_pc.splits)
  qed
next
  case Evict
  then show ?thesis
    using assms(2)
    by (auto simp: worker_step_def frames_inv_def frames_of_def get_nowait_def
        split: worker_pc.splits list.splits)
next
  case Reput
  then show ?thesis
    using assms(2)
    by (auto simp: worker_step_def frames_inv_def frames_of_def put_nowait_def
        split: worker_pc.splits)
next
  case StopFlag
  then show ?thesis
    using assms(2)
    by (auto simp: worker_step_def frames_inv_def frames_of_def split: worker_pc.splits)
next
  case Get
  then show ?thesis
    using assms(2) by (simp add: worker_step_def)
qed

lemma coordinator_step_frames_inv:
  assumes "initialized cfg" and "frames_inv cfg s"
  shows "frames_inv cfg (coordinator_step cfg s)"
proof (cases "get_nowait (audio_queue s)")
  case (Inl e)
  then show ?thesis
    using assms(2) by (simp add: coordinator_step_def)
next
  case (Inr r)
  obtain ts audio q where r: "r = ((ts, audio), q)"
    by (metis prod.exhaust)
  with Inr have items: "items (audio_queue s) = (ts, audio) # items q"
    by (simp add: get_nowait_items)
  with assms(2) have "audio \<noteq> []" "int (length audio) = chunk_size cfg"
    by (auto simp: frames_inv_def frames_of_def)
  then obtain freq psd st where "analyze_frequency_spectrum cfg audio = Inr (freq, psd)"
    and "compute_statistics audio freq psd = Inr st"
    using frame_analysis_ok [OF _ _ assms(1)] by blast
  then show ?thesis
    using assms(2) Inr r items
    by (auto simp: coordinator_step_def frames_inv_def frames_of_def)
qed

lemma step_frames_inv:
  "initialized cfg \<Longrightarrow> read_ok cfg ev \<Longrightarrow> frames_inv cfg s \<Longrightarrow>
   frames_inv cfg (step cfg s ev)"
  by (simp add: step_def worker_step_frames_inv coordinator_step_frames_inv)

lemma run_frames_inv:
  "initialized cfg \<Longrightarrow> \<forall>ev \<in> set evs. read_ok cfg ev \<Longrightarrow> frames_inv cfg s \<Longrightarrow>
   frames_inv cfg (run cfg s evs)"
  by (induction evs arbitrary: s) (simp_all add: step_frames_inv)

lemma init_frames_inv: "frames_inv cfg init_stream"
  by (simp add: frames_inv_def frames_of_def init_stream_def new_queue_def)

lemma analyzer_init_fields:
  assumes "analyzer_init sr c = Inr cfg"
  shows "sample_rate cfg = sr" and "chunk_duration cfg = round_double c" and "initialized cfg"
    and "\<exists>f. int_to_double sr = Inr f
           \<and> py_int_of_float (float_product f (round_double c)) = Inr (chunk_size cfg)"
proof -
  from assms obtain f n where f: "int_to_double sr = Inr f"
    and n: "py_int_of_float (float_product f (round_double c)) = Inr n"
    and cfg: "cfg = \<lparr>sample_rate = sr, chunk_duration = round_double c, chunk_size = n\<rparr>"
    by (auto simp: analyzer_init_def Let_def split: sum.splits)
  from cfg show "sample_rate cfg = sr" and "chunk_duration cfg = round_double c"
    by simp_all
  with assms show "initialized cfg"
    unfolding initialized_def by blast
  from f n cfg show "\<exists>f. int_to_double sr = Inr f
      \<and> py_int_of_float (float_product f (round_double c)) = Inr (chunk_size cfg)"
    by simp
qed

lemma py_int_of_int: "py_int (real_of_int n) = n"
  by (simp add: py_int_def)

lemma int_to_double_exact: "\<bar>n\<bar> \<le> 2 ^ 53 \<Longrightarrow> int_to_double n = Inr (real_of_int n)"
  by (simp add: int_to_double_def round_double_of_int)

text \<open>
  Claim C8. For an analyzer built by \<^verbatim>\<open>__init__\<close> and under the contract of \<open>read\<close> (at
  most the requested number of bytes), in every interleaving of the worker and the
  coordinator every frame in the buffer or in the worker's hands has exactly
  \<open>chunk_size\<close> samples, the worker never leaves its loop by an exception and the analysis
  never raises. A read of fewer bytes than requested, but not zero, is padded with zero
  bytes up to \<open>chunk_size * bytes_per_sample\<close> bytes before it is converted. The chunk
  size is \<open>int(sample_rate * chunk_duration)\<close>, the double product truncated towards zero;
  when the sample rate times the duration (as a double) is a whole number of at most 53
  bits, it is that number.
\<close>

theorem capture_frames_fixed_length:
  assumes "analyzer_init sr c = Inr cfg" and "\<forall>ev \<in> set evs. read_ok cfg ev"
  shows "(\<forall>f \<in> set (frames_of (run cfg init_stream evs)).
            int (length (snd f)) = chunk_size cfg)
       \<and> (\<forall>e. worker (run cfg init_stream evs) \<noteq> Crashed e)
       \<and> coordinator_error (run cfg init_stream evs) = None
       \<and> (raw \<noteq> [] \<and> int (length raw) \<le> chunk_bytes cfg \<longrightarrow>
            (\<exists>padded. padded = raw @ replicate (nat (chunk_bytes cfg) - length raw) 0
               \<and> int (length padded) = chunk_size cfg * bytes_per_sample
               \<and> capture_chunk cfg raw = Some (Inr (map pcm_to_float (int16_pairs padded)))
               \<and> int (length (map pcm_to_float (int16_pairs padded))) = chunk_size cfg))
       \<and> (\<exists>f. int_to_double sr = Inr f
              \<and> py_int_of_float (float_product f (round_double c)) = Inr (chunk_size cfg))
       \<and> (\<forall>cd n. round_double c = Fin cd \<and> \<bar>sr\<bar> \<le> 2 ^ 53
              \<and> real_of_int sr * cd = real_of_int n \<and> \<bar>n\<bar> \<le> 2 ^ 53 \<longrightarrow>
              chunk_size cfg = n)"
proof -
  note fields = analyzer_init_fields [OF assms(1)]
  have inv: "frames_inv cfg (run cfg init_stream evs)"
    using fields(3) assms(2) init_frames_inv by (rule run_frames_inv)
  have chunk: "\<exists>padded. padded = raw @ replicate (nat (chunk_bytes cfg) - length raw) 0
               \<and> int (length padded) = chunk_size cfg * bytes_per_sample
               \<and> capture_chunk cfg raw = Some (Inr (map pcm_to_float (int16_pairs padded)))
               \<and> int (length (map pcm_to_float (int16_pairs padded))) = chunk_size cfg"
    if ok: "raw \<noteq> []" "int (length raw) \<le> chunk_bytes cfg"
  proof -
    have "pad_chunk cfg raw = raw @ replicate (nat (chunk_bytes cfg) - length raw) 0"
      using ok(2) by (rule pad_chunk_short)
    moreover have "int (length (pad_chunk cfg raw)) = chunk_size cfg * bytes_per_sample"
      using ok(2) by (simp add: pad_chunk_length chunk_bytes_def)
    ultimately show ?thesis
      using capture_chunk_frame [OF ok] by simp
  qed
  have whole: "chunk_size cfg = n"
    if "round_double c = Fin cd" and "\<bar>sr\<bar> \<le> 2 ^ 53"
      and "real_of_int sr * cd = real_of_int n" and "\<bar>n\<bar> \<le> 2 ^ 53" for cd n
  proof -
    from that(2) have "int_to_double sr = Inr (real_of_int sr)"
      by (rule int_to_double_exact)
    moreover from that(3,4) have "round_double (real_of_int sr * cd) = Fin (real_of_int n)"
      by (simp add: round_double_of_int)
    ultimately show ?thesis
      using fields(4) that(1) by (auto simp: float_product_def py_int_of_int)
  qed
  from inv chunk fields(4) whole show ?thesis
    unfolding frames_inv_def by blast
qed

text \<open>
  Two analyzers: a small one, run on a short read, and the default one
  (\<open>sample_rate = 48000\<close>, \<open>chunk_duration = 1.0\<close>).
\<close>

lemma analyzer_init_small:
  "analyzer_init 2 1 = Inr \<lparr>sample_rate = 2, chunk_duration = Fin 1, chunk_size = 2\<rparr>"
  using round_double_of_int [of 1] round_double_of_int [of 2]
  by (simp add: analyzer_init_def int_to_double_def float_product_def py_int_def)

lemma analyzer_init_default:
  "analyzer_init 48000 1
     = Inr \<lparr>sample_rate = 48000, chunk_duration = Fin 1, chunk_size = 48000\<rparr>"
  using round_double_of_int [of 1] round_double_of_int [of 48000]
  by (simp add: analyzer_init_def int_to_double_def float_product_def py_int_def)

theorem capture_frames_fixed_length_witness:
  "analyzer_init 2 1 = Inr \<lparr>sample_rate = 2, chunk_duration = Fin 1, chunk_size = 2\<rparr>
   \<and> read_ok \<lparr>sample_rate = 2, chunk_duration = Fin 1, chunk_size = 2\<rparr> (Read [1, 0, 2] 5)
   \<and> int (length [1, 0, 2 :: 8 word])
        \<le> chunk_bytes \<lparr>sample_rate = 2, chunk_duration = Fin 1, chunk_size = 2\<rparr>
   \<and> capture_chunk \<lparr>sample_rate = 2, chunk_duration = Fin 1, chunk_size = 2\<rparr> [1, 0, 2]
       = Some (Inr [1 / 32768, 2 / 32768])
   \<and> items (audio_queue (run \<lparr>sample_rate = 2, chunk_duration = Fin 1, chunk_size = 2\<rparr>
        init_stream [Read [1, 0, 2] 5]))
       = [(5, [1 / 32768, 2 / 32768])]
   \<and> coordinator_error (run \<lparr>sample_rate = 2, chunk_duration = Fin 1, chunk_size = 2\<rparr>
        init_stream [Read [1, 0, 2] 5, Get])
       = None
   \<and> analyzer_init 48000 1
       = Inr \<lparr>sample_rate = 48000, chunk_duration = Fin 1, chunk_size = 48000\<rparr>"
proof -
  let ?cfg = "\<lparr>sample_rate = 2, chunk_duration = Fin 1, chunk_size = 2\<rparr>"
  have size: "chunk_bytes ?cfg = 4"
    by (simp add: chunk_bytes_def bytes_per_sample_def)
  have ok1: "\<forall>ev \<in> set [Read [1, 0, 2] 5]. read_ok ?cfg ev"
    and ok2: "\<forall>ev \<in> set [Read [1, 0, 2] 5, Get]. read_ok ?cfg ev"
    by (simp_all add: size)
  have small: "read_ok ?cfg (Read [1, 0, 2] 5)
      \<and> int (length [1, 0, 2 :: 8 word]) \<le> chunk_bytes ?cfg
      \<and> capture_chunk ?cfg [1, 0, 2] = Some (Inr [1 / 32768, 2 / 32768])
      \<and> items (audio_queue (run ?cfg init_stream [Read [1, 0, 2] 5]))
          = [(5, [1 / 32768, 2 / 32768])]
      \<and> coordinator_error (run ?cfg init_stream [Read [1, 0, 2] 5, Get]) = None"
    using capture_frames_fixed_length [OF analyzer_init_small ok1, of "[1, 0, 2]"]
      capture_frames_fixed_length [OF analyzer_init_small ok2, of "[1, 0, 2]"]
    by (simp add: size bytes_per_sample_def capture_chunk_def pad_chunk_def
        frombuffer_int16_def pcm_to_float_def step_def worker_step_def put_nowait_def
        init_stream_def new_queue_def)
  from small analyzer_init_small analyzer_init_default show ?thesis
    by simp
qed

subsection \<open>The histories of a stream\<close>

lemma worker_step_history:
  "timestamp_history (worker_step cfg s ev) = timestamp_history s
   \<and> snr_history (worker_step cfg s ev) = snr_history s
   \<and> bird_power_history (worker_step cfg s ev) = bird_power_history s
   \<and> low_power_history (worker_step cfg s ev) = low_power_history s
   \<and> analysis_count (worker_step cfg s ev) = analysis_count s
   \<and> res_stats (worker_step cfg s ev) = res_stats s"
  by (cases ev; cases "worker s")
    (auto simp: worker_step_def split: option.splits sum.splits prod.splits)

lemma coordinator_step_history_inv:
  "history_inv s \<Longrightarrow> history_inv (coordinator_step cfg s)"
  by (auto simp: coordinator_step_def history_inv_def split: sum.splits prod.splits)

lemma step_history_inv: "history_inv s \<Longrightarrow> history_inv (step cfg s ev)"
  using worker_step_history [of cfg s ev]
  by (simp add: step_def coordinator_step_history_inv) (simp add: history_inv_def)

lemma run_history_inv: "history_inv s \<Longrightarrow> history_inv (run cfg s evs)"
  by (induction evs arbitrary: s) (simp_all add: step_history_inv)

lemma sorted_drop_middle: "sorted (xs @ y # ys) \<Longrightarrow> sorted (xs @ (ys :: real list))"
  by (auto simp: sorted_append)

lemma worker_step_sorted:
  assumes "sorted (all_stamps s @ stamps (ev # evs))"
  shows "sorted (all_stamps (worker_step cfg s ev) @ stamps evs)"
proof (cases ev)
  case (Read raw ts)
  then show ?thesis
    using assms
    by (cases "worker s")
      (auto simp: worker_step_def all_stamps_def frames_of_def put_nowait_def sorted_append
        split: option.splits sum.splits if_splits)
next
  case Evict
  then show ?thesis
    using assms
    by (cases "worker s")
      (auto simp: worker_step_def all_stamps_def frames_of_def get_nowait_def sorted_append
        split: list.splits)
next
  case Reput
  then show ?thesis
    using assms
    by (cases "worker s")
      (auto simp: worker_step_def all_stamps_def frames_of_def put_nowait_def sorted_append)
next
  case StopFlag
  then show ?thesis
    using assms
    by (cases "worker s") (auto simp: worker_step_def all_stamps_def frames_of_def)
next
  case Get
  then show ?thesis
    using assms by (simp add: worker_step_def)
qed

lemma coordinator_step_stamps:
  "all_stamps (coordinator_step cfg s) = all_stamps s
   \<or> (\<exists>xs y ys. all_stamps s = xs @ y # ys \<and> all_stamps (coordinator_step cfg s) = xs @ ys)"
proof (cases "coordinator_error s \<noteq> None \<or> items (audio_queue s) = []")
  case True
  then show ?thesis
    by (auto simp: coordinator_step_def get_nowait_def)
next
  case False
  then obtain ts audio rest where q: "items (audio_queue s) = (ts, audio) # rest"
    by (cases "items (audio_queue s)") auto
  let ?q = "(audio_queue s)\<lparr>items := rest\<rparr>"
  have got: "get_nowait (audio_queue s) = Inr ((ts, audio), ?q)"
    by (simp add: get_nowait_def q)
  have before: "all_stamps s =
      timestamp_history s @ ts # (map fst rest @ map fst (pending (worker s)))"
    by (simp add: all_stamps_def frames_of_def q)
  consider (failed) e where "coordinator_step cfg s = s\<lparr>audio_queue := ?q, coordinator_error := Some e\<rparr>"
    | (analyzed) "timestamp_history (coordinator_step cfg s) = timestamp_history s @ [ts]"
        "audio_queue (coordinator_step cfg s) = ?q" "worker (coordinator_step cfg s) = worker s"
  proof (cases "analyze_frequency_spectrum cfg audio")
    case (Inl e)
    with False got have "coordinator_step cfg s = s\<lparr>audio_queue := ?q, coordinator_error := Some e\<rparr>"
      by (simp add: coordinator_step_def)
    then show ?thesis
      by (rule failed)
  next
    case (Inr spectrum)
    obtain freq psd where spectrum: "spectrum = (freq, psd)"
      by (cases spectrum)
    show ?thesis
    proof (cases "compute_statistics audio freq psd")
      case (Inl e)
      with False got Inr spectrum
      have "coordinator_step cfg s = s\<lparr>audio_queue := ?q, coordinator_error := Some e\<rparr>"
        by (simp add: coordinator_step_def)
      then show ?thesis
        by (rule failed)
    next
      case (Inr st)
      with False got \<open>analyze_frequency_spectrum cfg audio = Inr spectrum\<close> spectrum
      show ?thesis
        by (intro analyzed) (simp_all add: coordinator_step_def)
    qed
  qed
  then show ?thesis
  proof cases
    case failed
    then have "all_stamps (coordinator_step cfg s) =
        timestamp_history s @ (map fst rest @ map fst (pending (worker s)))"
      by (simp add: all_stamps_def frames_of_def)
    with before show ?thesis
      by blast
  next
    case analyzed
    then have "all_stamps (coordinator_step cfg s) = all_stamps s"
      by (simp add: all_stamps_def frames_of_def q)
    then show ?thesis
      by simp
  qed
qed

lemma coordinator_step_sorted:
  assumes "sorted (all_stamps s @ rest)"
  shows "sorted (all_stamps (coordinator_step cfg s) @ rest)"
proof -
  from coordinator_step_stamps [of cfg s] show ?thesis
  proof
    assume "all_stamps (coordinator_step cfg s) = all_stamps s"
    with assms show ?thesis
      by simp
  next
    assume "\<exists>xs y ys. all_stamps s = xs @ y # ys \<and> all_stamps (coordinator_step cfg s) = xs @ ys"
    then obtain xs y ys where "all_stamps s = xs @ y # ys"
      and after: "all_stamps (coordinator_step cfg s) = xs @ ys"
      by blast
    with assms have "sorted (xs @ y # (ys @ rest))"
      by simp
    then have "sorted (xs @ (ys @ rest))"
      by (rule sorted_drop_middle)
    with after show ?thesis
      by simp
  qed
qed

lemma step_sorted:
  "sorted (all_stamps s @ stamps (ev # evs)) \<Longrightarrow> sorted (all_stamps (step cfg s ev) @ stamps evs)"
  by (cases "ev = Get") (auto simp: step_def worker_step_sorted coordinator_step_sorted)

lemma run_sorted:
  "sorted (all_stamps s @ stamps evs) \<Longrightarrow> sorted (all_stamps (run cfg s evs))"
proof (induction evs arbitrary: s)
  case Nil
  then show ?case by simp
next
  case (Cons ev evs)
  from Cons.prems have "sorted (all_stamps (step cfg s ev) @ stamps evs)"
    by (rule step_sorted)
  then show ?case
    by (simp add: Cons.IH)
qed

lemma step_history_length:
  "length (timestamp_history (step cfg s ev)) =
   length (timestamp_history s) + (if analyzes cfg s ev then 1 else 0)"
proof (cases "ev = Get")
  case True
  then show ?thesis
    by (auto simp: step_def coordinator_step_def analyzes_def split: sum.splits prod.splits)
next
  case False
  then show ?thesis
    using worker_step_history [of cfg s ev] by (simp add: step_def analyzes_def)
qed

lemma run_history_length:
  "length (timestamp_history (run cfg s evs)) =
   length (timestamp_history s) + analyzed_frames cfg s evs"
  by (induction evs arbitrary: s) (simp_all add: step_history_length)

lemma init_history_inv: "history_inv init_stream"
  by (simp add: history_inv_def init_stream_def)

lemma init_all_stamps: "all_stamps init_stream = []"
  by (simp add: all_stamps_def frames_of_def init_stream_def new_queue_def)

text \<open>
  Claim C9. In every interleaving of the worker and the coordinator of a stream, from the
  initial state: each history of the stream (timestamps, SNR, band powers) has as many
  entries as frames were dequeued and analyzed, which is also the stream's
  \<open>analysis_count\<close>; no event of the worker changes a history; and when the clock
  readings of the worker are non-decreasing, so are the timestamps of the history.
\<close>

theorem history_length_and_order:
  assumes "sorted (stamps evs)"
  shows "length (timestamp_history (run cfg init_stream evs)) = analyzed_frames cfg init_stream evs
       \<and> analysis_count (run cfg init_stream evs) = analyzed_frames cfg init_stream evs
       \<and> length (snr_history (run cfg init_stream evs)) = analyzed_frames cfg init_stream evs
       \<and> length (bird_power_history (run cfg init_stream evs)) = analyzed_frames cfg init_stream evs
       \<and> length (low_power_history (run cfg init_stream evs)) = analyzed_frames cfg init_stream evs
       \<and> sorted (timestamp_history (run cfg init_stream evs))
       \<and> (ev \<noteq> Get \<longrightarrow>
            timestamp_history (step cfg s ev) = timestamp_history s
            \<and> snr_history (step cfg s ev) = snr_history s
            \<and> bird_power_history (step cfg s ev) = bird_power_history s
            \<and> low_power_history (step cfg s ev) = low_power_history s
            \<and> analysis_count (step cfg s ev) = analysis_count s)"
proof -
  let ?s = "run cfg init_stream evs"
  have len: "length (timestamp_history ?s) = analyzed_frames cfg init_stream evs"
    by (simp add: run_history_length init_stream_def)
  have "history_inv ?s"
    using init_history_inv by (rule run_history_inv)
  with len have counts: "analysis_count ?s = analyzed_frames cfg init_stream evs"
    "length (snr_history ?s) = analyzed_frames cfg init_stream evs"
    "length (bird_power_history ?s) = analyzed_frames cfg init_stream evs"
    "length (low_power_history ?s) = analyzed_frames cfg init_stream evs"
    by (simp_all add: history_inv_def)
  from assms have "sorted (all_stamps init_stream @ stamps evs)"
    by (simp add: init_all_stamps)
  then have "sorted (all_stamps ?s)"
    by (rule run_sorted)
  then have ordered: "sorted (timestamp_history ?s)"
    by (simp add: all_stamps_def sorted_append)
  have "timestamp_history (step cfg s ev) = timestamp_history s
      \<and> snr_history (step cfg s ev) = snr_history s
      \<and> bird_power_history (step cfg s ev) = bird_power_history s
      \<and> low_power_history (step cfg s ev) = low_power_history s
      \<and> analysis_count (step cfg s ev) = analysis_count s" if "ev \<noteq> Get"
    using that worker_step_history [of cfg s ev] by (simp add: step_def)
  with len counts ordered show ?thesis
    by blast
qed

lemma coordinator_step_analyzed:
  assumes "frames_inv cfg s" and "items (audio_queue s) = (ts, audio) # rest"
    and "initialized cfg"
  shows "timestamp_history (coordinator_step cfg s) = timestamp_history s @ [ts]
       \<and> audio_queue (coordinator_step cfg s) = (audio_queue s)\<lparr>items := rest\<rparr>
       \<and> worker (coordinator_step cfg s) = worker s
       \<and> analysis_count (coordinator_step cfg s) = analysis_count s + 1"
proof -
  from assms have "audio \<noteq> []" "int (length audio) = chunk_size cfg"
    by (auto simp: frames_inv_def frames_of_def)
  then obtain freq psd st where "analyze_frequency_spectrum cfg audio = Inr (freq, psd)"
    and "compute_statistics audio freq psd = Inr st"
    using frame_analysis_ok [OF _ _ assms(3)] by blast
  moreover from assms(1) have "coordinator_error s = None"
    by (simp add: frames_inv_def)
  ultimately show ?thesis
    using assms(2) by (simp add: coordinator_step_def get_nowait_def)
qed

theorem history_length_and_order_witness:
  "sorted (stamps [Read [1, 0, 2] 5, Get, Read [3, 0, 4, 0] 6, Get])
   \<and> timestamp_history (run \<lparr>sample_rate = 2, chunk_duration = Fin 1, chunk_size = 2\<rparr> init_stream
        [Read [1, 0, 2] 5, Get, Read [3, 0, 4, 0] 6, Get]) = [5, 6]
   \<and> analysis_count (run \<lparr>sample_rate = 2, chunk_duration = Fin 1, chunk_size = 2\<rparr> init_stream
        [Read [1, 0, 2] 5, Get, Read [3, 0, 4, 0] 6, Get]) = 2
   \<and> analyzed_frames \<lparr>sample_rate = 2, chunk_duration = Fin 1, chunk_size = 2\<rparr> init_stream
        [Read [1, 0, 2] 5, Get, Read [3, 0, 4, 0] 6, Get] = 2"
proof -
  define cfg where "cfg = \<lparr>sample_rate = 2, chunk_duration = Fin 1, chunk_size = 2\<rparr>"
  define s1 where "s1 = step cfg init_stream (Read [1, 0, 2] 5)"
  define s2 where "s2 = step cfg s1 Get"
  define s3 where "s3 = step cfg s2 (Read [3, 0, 4, 0] 6)"
  define s4 where "s4 = step cfg s3 Get"
  have size: "chunk_bytes cfg = 4"
    by (simp add: cfg_def chunk_bytes_def bytes_per_sample_def)
  have init: "initialized cfg"
    using analyzer_init_fields(3) [OF analyzer_init_small] by (simp add: cfg_def)
  have inv1: "frames_inv cfg s1"
    unfolding s1_def by (intro step_frames_inv init_frames_inv init) (simp add: size)
  have q1: "items (audio_queue s1) = [(5, [1 / 32768, 2 / 32768])]"
    and h1: "timestamp_history s1 = []" "analysis_count s1 = 0"
    by (simp_all add: s1_def step_def worker_step_def capture_chunk_def pad_chunk_def size
        frombuffer_int16_def pcm_to_float_def put_nowait_def init_stream_def new_queue_def)
  have s2: "s2 = coordinator_step cfg s1"
    by (simp add: s2_def step_def)
  have inv2: "frames_inv cfg s2"
    unfolding s2 using init inv1 by (rule coordinator_step_frames_inv)
  have h2: "timestamp_history s2 = [5]" "analysis_count s2 = 1"
    and q2: "audio_queue s2 = (audio_queue s1)\<lparr>items := []\<rparr>" and w2: "worker s2 = worker s1"
    using coordinator_step_analyzed [OF inv1 q1 init] h1 by (simp_all add: s2)
  have w1: "worker s1 = Reading" and m1: "maxsize (audio_queue s1) = 10"
    by (simp_all add: s1_def step_def worker_step_def capture_chunk_def pad_chunk_def size
        frombuffer_int16_def pcm_to_float_def put_nowait_def init_stream_def new_queue_def)
  have inv3: "frames_inv cfg s3"
    unfolding s3_def using init _ inv2 by (rule step_frames_inv) (simp add: size)
  have q3: "items (audio_queue s3) = [(6, [3 / 32768, 4 / 32768])]"
    and h3: "timestamp_history s3 = [5]" "analysis_count s3 = 1"
    using w1 m1
    by (simp_all add: s3_def step_def worker_step_def capture_chunk_def pad_chunk_def size
        frombuffer_int16_def pcm_to_float_def put_nowait_def h2 q2 w2)
  have s4: "s4 = coordinator_step cfg s3"
    by (simp add: s4_def step_def)
  have h4: "timestamp_history s4 = [5, 6]" "analysis_count s4 = 2"
    using coordinator_step_analyzed [OF inv3 q3 init] h3 by (simp_all add: s4)
  have run: "run cfg init_stream [Read [1, 0, 2] 5, Get, Read [3, 0, 4, 0] 6, Get] = s4"
    by (simp add: s1_def s2_def s3_def s4_def)
  have ordered: "sorted (stamps [Read [1, 0, 2] 5, Get, Read [3, 0, 4, 0] 6, Get])"
    by simp
  from history_length_and_order [OF ordered, of cfg]
  have "analysis_count (run cfg init_stream [Read [1, 0, 2] 5, Get, Read [3, 0, 4, 0] 6, Get])
        = analyzed_frames cfg init_stream [Read [1, 0, 2] 5, Get, Read [3, 0, 4, 0] 6, Get]"
    by simp
  with run h4 ordered show ?thesis
    unfolding cfg_def by simp
qed

subsection \<open>Levels of a silent frame\<close>

lemma compute_statistics_levels:
  assumes "compute_statistics audio freq psd = Inr st"
  shows "rms st = Fin (sqrt (mean (map (\<lambda>x. x\<^sup>2) audio)))"
    and "rms_db st = np_scale 20 (np_log10_scalar (np_add (rms st) (Fin floor_const)))"
    and "peak st = Fin (Max (set (map abs audio)))"
    and "peak_db st = np_scale 20 (np_log10_scalar (np_add (peak st) (Fin floor_const)))"
    and "crest_factor st = np_div (peak st) (np_add (rms st) (Fin floor_const))"
    and "crest_factor_db st = np_scale 20 (np_log10_scalar (crest_factor st))"
  using assms
  by (auto simp: compute_statistics_def Let_def split: if_splits sum.splits)

lemma silent_mean_square:
  assumes "\<forall>x \<in> set audio. x = 0"
  shows "mean (map (\<lambda>x. x\<^sup>2) audio) = 0"
proof -
  from assms have "sum_list (map (\<lambda>x. x\<^sup>2) audio) = 0"
    by (induction audio) simp_all
  then show ?thesis
    by (simp add: mean_def)
qed

lemma silent_peak:
  assumes "audio \<noteq> []" and "\<forall>x \<in> set audio. x = (0::real)"
  shows "Max (abs ` set audio) = 0"
proof -
  from assms have "abs ` set audio = {0}"
    by (cases audio) auto
  then show ?thesis
    by simp
qed

lemma log10_floor_const: "log 10 floor_const = - 10"
proof -
  have "floor_const = 10 powr (- 10)"
    by (simp add: floor_const_def powr_minus_divide)
  moreover have "log 10 (10 powr (- 10)) = - 10"
    by (rule log_powr_cancel) simp_all
  ultimately show ?thesis
    by (simp only:)
qed

lemma silent_levels:
  assumes "audio \<noteq> []" and "\<forall>x \<in> set audio. x = 0"
    and "compute_statistics audio freq psd = Inr st"
  shows "rms st = Fin 0" and "peak st = Fin 0"
  using compute_statistics_levels(1,3) [OF assms(3)] assms(1,2)
  by (simp_all add: silent_mean_square silent_peak)


text \<open>
  Claim C7. For a silent frame (not empty, every sample zero) and a spectral slice (parallel
  sequences, not empty) \<^verbatim>\<open>compute_statistics\<close> returns, and \<open>rms_db\<close> is the finite value
  \<open>20 * log10(1e-10) = -200\<close>: neither negative infinity nor not-a-number, since the
  floor is added to the RMS before the logarithm.
\<close>

theorem silent_frame_rms_db:
  assumes "audio \<noteq> []" and "\<forall>x \<in> set audio. x = 0"
    and "length freq = length psd" and "psd \<noteq> []"
  shows "\<exists>st. compute_statistics audio freq psd = Inr st
           \<and> rms_db st = Fin (20 * log 10 floor_const)
           \<and> rms_db st = Fin (- 200)
           \<and> rms_db st \<noteq> NInf \<and> rms_db st \<noteq> NaN"
proof -
  from assms(1,3,4) obtain st where st: "compute_statistics audio freq psd = Inr st"
    using compute_statistics_ok by blast
  have "rms st = Fin 0"
    using assms(1,2) st by (rule silent_levels)
  then have "rms_db st = Fin (20 * log 10 floor_const)"
    using compute_statistics_levels(2) [OF st]
    by (simp add: np_log10_def floor_const_def)
  with st show ?thesis
    by (auto simp: log10_floor_const)
qed


theorem silent_frame_rms_db_witness:
  "[0, 0, 0, 0 :: real] \<noteq> [] \<and> list_all (\<lambda>x. x = 0) [0, 0, 0, 0 :: real]
   \<and> length [0, 1, 2 :: real] = length [- 100, - 100, - 100 :: real]
   \<and> (\<exists>st. compute_statistics [0, 0, 0, 0] [0, 1, 2] [- 100, - 100, - 100] = Inr st
          \<and> rms_db st = Fin (- 200))"
  using silent_frame_rms_db [of "[0, 0, 0, 0]" "[0, 1, 2]" "[- 100, - 100, - 100]"]
  by auto


text \<open>
  Claim C10. For a silent frame the crest factor is \<open>0 / (0 + 1e-10) = 0\<close> and
  \<open>crest_factor_db = 20 * log10(0)\<close> is negative infinity: no floor is added inside
  this logarithm, unlike those of \<open>rms_db\<close> and \<open>peak_db\<close>, which are finite.
\<close>

theorem silent_frame_crest_factor_db:
  assumes "audio \<noteq> []" and "\<forall>x \<in> set audio. x = 0"
    and "length freq = length psd" and "psd \<noteq> []"
  shows "\<exists>st. compute_statistics audio freq psd = Inr st
           \<and> crest_factor st = Fin 0
           \<and> crest_factor_db st = NInf
           \<and> \<not> is_finite (crest_factor_db st)
           \<and> is_finite (rms_db st) \<and> is_finite (peak_db st)"
proof -
  from assms(1,3,4) obtain st where st: "compute_statistics audio freq psd = Inr st"
    using compute_statistics_ok by blast
  have zero: "rms st = Fin 0" "peak st = Fin 0"
    using assms(1,2) st by (rule silent_levels)+
  have crest: "crest_factor st = Fin 0"
    using compute_statistics_levels(5) [OF st] zero
    by (simp add: np_div_fin_def floor_const_def)
  then have "crest_factor_db st = NInf"
    using compute_statistics_levels(6) [OF st] by (simp add: np_log10_def)
  moreover have "is_finite (rms_db st)" "is_finite (peak_db st)"
    using compute_statistics_levels(2,4) [OF st] zero
    by (simp_all add: np_log10_def floor_const_def is_finite_def)
  ultimately show ?thesis
    using st crest by (simp add: is_finite_def)
qed

theorem silent_frame_crest_factor_db_witness:
  "[0, 0, 0, 0 :: real] \<noteq> [] \<and> list_all (\<lambda>x. x = 0) [0, 0, 0, 0 :: real]
   \<and> length [0, 1, 2 :: real] = length [- 100, - 100, - 100 :: real]
   \<and> (\<exists>st. compute_statistics [0, 0, 0, 0] [0, 1, 2] [- 100, - 100, - 100] = Inr st
          \<and> crest_factor st = Fin 0 \<and> crest_factor_db st = NInf)"
  using silent_frame_crest_factor_db [of "[0, 0, 0, 0]" "[0, 1, 2]" "[- 100, - 100, - 100]"]
  by auto


subsection \<open>Band powers and signal-to-noise ratios\<close>

lemma zip_nth_upt:
  assumes "length xs = length ys"
  shows "zip xs ys = map (\<lambda>i. (xs ! i, ys ! i)) [0..<length xs]"
  using assms by (intro nth_equalityI) simp_all

lemma band_selection:
  assumes "length freq = length psd"
  shows "map snd (filter (\<lambda>(f, p). in_band f) (zip freq psd)) =
         map (\<lambda>i. psd ! i) (filter (\<lambda>i. in_band (freq ! i)) [0..<length freq])"
  by (simp add: zip_nth_upt [OF assms] filter_map comp_def)

lemma set_filter_upt: "set (filter Q [0..<n]) = {i. i < n \<and> Q i}"
  by auto

lemma sum_list_filter_upt:
  "sum_list (map f (filter Q [0..<n])) = (\<Sum>i \<in> {i. i < n \<and> Q i}. f i)"
proof -
  have "distinct (filter Q [0..<n])"
    by simp
  then have "sum_list (map f (filter Q [0..<n])) = sum f (set (filter Q [0..<n]))"
    by (rule sum_list_distinct_conv_sum_set)
  then show ?thesis
    by (simp only: set_filter_upt)
qed

lemma length_filter_upt: "length (filter Q [0..<n]) = card {i. i < n \<and> Q i}"
proof -
  have "card (set (filter Q [0..<n])) = length (filter Q [0..<n])"
    by (rule distinct_card) simp
  then show ?thesis
    by (simp only: set_filter_upt)
qed

lemma list_ex_bins: "list_ex in_band freq \<longleftrightarrow> {i. i < length freq \<and> in_band (freq ! i)} \<noteq> {}"
  by (auto simp: list_ex_iff in_set_conv_nth intro: nth_mem)

lemma band_power_spec:
  assumes "length freq = length psd"
  shows "band_power in_band freq psd = Inr (spec_band_mean in_band freq psd)"
proof (cases "list_ex in_band freq")
  case False
  then show ?thesis
    by (simp add: band_power_def spec_band_mean_def list_ex_bins)
next
  case True
  then have "band_power in_band freq psd =
      Inr (Fin (mean (map (\<lambda>i. psd ! i) (filter (\<lambda>i. in_band (freq ! i)) [0..<length freq]))))"
    using assms by (simp add: band_power_def band_selection)
  with True show ?thesis
    by (simp add: spec_band_mean_def Let_def mean_def list_ex_bins sum_list_filter_upt
        length_filter_upt)
qed

lemma compute_statistics_bands:
  assumes "compute_statistics audio freq psd = Inr st"
  shows "band_power low_mask freq psd = Inr (low_freq_power st)"
    and "band_power mid_mask freq psd = Inr (mid_freq_power st)"
    and "band_power bird_mask freq psd = Inr (bird_freq_power st)"
    and "band_power high_mask freq psd = Inr (high_freq_power st)"
    and "snr_bird_to_low st = np_sub (bird_freq_power st) (low_freq_power st)"
    and "snr_bird_to_mid st = np_sub (bird_freq_power st) (mid_freq_power st)"
    and "spectral_rolloff_of freq psd = Inr (spectral_rolloff st)"
  using assms
  by (auto simp: compute_statistics_def Let_def split: if_splits sum.splits)

lemma mask_lambdas:
  "low_mask = (\<lambda>f. f < 1000)" "mid_mask = (\<lambda>f. 1000 \<le> f \<and> f < 3000)"
  "bird_mask = (\<lambda>f. 3000 \<le> f \<and> f \<le> 8000)" "high_mask = (\<lambda>f. 8000 < f)"
  by (simp_all add: fun_eq_iff low_mask_def mid_mask_def bird_mask_def high_mask_def)


text \<open>
  Claim C2. For a frame (not empty) and a spectral slice (parallel sequences, not empty)
  \<^verbatim>\<open>compute_statistics\<close> returns; each band power is the arithmetic mean of
  \<open>power_db\<close> over the bins of its band (low \<open>< 1000\<close>, mid \<open>[1000, 3000)\<close>, bird
  \<open>[3000, 8000]\<close>, high \<open>> 8000\<close>), negative infinity when the band has no bin; the two
  SNR values are the bird band power minus the low and the mid band power; and negative
  infinity minus negative infinity is not-a-number, returned as a value.
\<close>

theorem band_powers_and_snr:
  assumes "audio \<noteq> []" and "length freq = length psd" and "psd \<noteq> []"
  shows "\<exists>st. compute_statistics audio freq psd = Inr st
           \<and> low_freq_power st = spec_band_mean (\<lambda>f. f < 1000) freq psd
           \<and> mid_freq_power st = spec_band_mean (\<lambda>f. 1000 \<le> f \<and> f < 3000) freq psd
           \<and> bird_freq_power st = spec_band_mean (\<lambda>f. 3000 \<le> f \<and> f \<le> 8000) freq psd
           \<and> high_freq_power st = spec_band_mean (\<lambda>f. 8000 < f) freq psd
           \<and> snr_bird_to_low st = np_sub (bird_freq_power st) (low_freq_power st)
           \<and> snr_bird_to_mid st = np_sub (bird_freq_power st) (mid_freq_power st)
           \<and> (\<forall>a b. bird_freq_power st = Fin a \<and> low_freq_power st = Fin b \<longrightarrow>
                  snr_bird_to_low st = Fin (a - b))
           \<and> (\<forall>a b. bird_freq_power st = Fin a \<and> mid_freq_power st = Fin b \<longrightarrow>
                  snr_bird_to_mid st = Fin (a - b))
           \<and> (bird_freq_power st = NInf \<and> low_freq_power st = NInf \<longrightarrow>
                  snr_bird_to_low st = NaN)
           \<and> (bird_freq_power st = NInf \<and> mid_freq_power st = NInf \<longrightarrow>
                  snr_bird_to_mid st = NaN)"
proof -
  from assms obtain st where st: "compute_statistics audio freq psd = Inr st"
    using compute_statistics_ok by blast
  note bands = compute_statistics_bands [OF st]
  have "low_freq_power st = spec_band_mean (\<lambda>f. f < 1000) freq psd"
    using bands(1) band_power_spec [OF assms(2), of low_mask] by (simp add: mask_lambdas)
  moreover have "mid_freq_power st = spec_band_mean (\<lambda>f. 1000 \<le> f \<and> f < 3000) freq psd"
    using bands(2) band_power_spec [OF assms(2), of mid_mask] by (simp add: mask_lambdas)
  moreover have "bird_freq_power st = spec_band_mean (\<lambda>f. 3000 \<le> f \<and> f \<le> 8000) freq psd"
    using bands(3) band_power_spec [OF assms(2), of bird_mask] by (simp add: mask_lambdas)
  moreover have "high_freq_power st = spec_band_mean (\<lambda>f. 8000 < f) freq psd"
    using bands(4) band_power_spec [OF assms(2), of high_mask] by (simp add: mask_lambdas)
  ultimately show ?thesis
    using st bands(5,6) by (auto simp: np_sub_def)
qed

theorem band_powers_and_snr_witness:
  "(\<exists>st. compute_statistics [1 / 2] [0, 2000, 4000, 9000] [- 10, - 20, - 30, - 40] = Inr st
      \<and> low_freq_power st = Fin (- 10) \<and> mid_freq_power st = Fin (- 20)
      \<and> bird_freq_power st = Fin (- 30) \<and> high_freq_power st = Fin (- 40)
      \<and> snr_bird_to_low st = Fin (- 20) \<and> snr_bird_to_mid st = Fin (- 10))
   \<and> (\<exists>st. compute_statistics [1 / 2] [0, 1, 2] [1, 2, 3] = Inr st
      \<and> low_freq_power st = Fin 2 \<and> mid_freq_power st = NInf
      \<and> bird_freq_power st = NInf \<and> high_freq_power st = NInf
      \<and> snr_bird_to_low st = NInf \<and> snr_bird_to_mid st = NaN)"
proof -
  have eval: "spec_band_mean in_band freq psd = v"
    if "length freq = length psd" and "band_power in_band freq psd = Inr v" for in_band freq psd v
    using that band_power_spec [of freq psd in_band] by simp
  have a: "spec_band_mean (\<lambda>f. f < 1000) [0, 2000, 4000, 9000] [- 10, - 20, - 30, - 40] = Fin (- 10)"
    "spec_band_mean (\<lambda>f. 1000 \<le> f \<and> f < 3000) [0, 2000, 4000, 9000] [- 10, - 20, - 30, - 40] = Fin (- 20)"
    "spec_band_mean (\<lambda>f. 3000 \<le> f \<and> f \<le> 8000) [0, 2000, 4000, 9000] [- 10, - 20, - 30, - 40] = Fin (- 30)"
    "spec_band_mean (\<lambda>f. 8000 < f) [0, 2000, 4000, 9000] [- 10, - 20, - 30, - 40] = Fin (- 40)"
    by (rule eval; simp add: band_power_def mean_def)+
  have b: "spec_band_mean (\<lambda>f. f < 1000) [0, 1, 2] [1, 2, 3] = Fin 2"
    "spec_band_mean (\<lambda>f. 1000 \<le> f \<and> f < 3000) [0, 1, 2] [1, 2, 3] = NInf"
    "spec_band_mean (\<lambda>f. 3000 \<le> f \<and> f \<le> 8000) [0, 1, 2] [1, 2, 3] = NInf"
    "spec_band_mean (\<lambda>f. 8000 < f) [0, 1, 2] [1, 2, 3] = NInf"
    by (rule eval; simp add: band_power_def mean_def)+
  from band_powers_and_snr [of "[1 / 2]" "[0, 2000, 4000, 9000]" "[- 10, - 20, - 30, - 40]"]
  have first: "\<exists>st. compute_statistics [1 / 2] [0, 2000, 4000, 9000] [- 10, - 20, - 30, - 40] = Inr st
      \<and> low_freq_power st = Fin (- 10) \<and> mid_freq_power st = Fin (- 20)
      \<and> bird_freq_power st = Fin (- 30) \<and> high_freq_power st = Fin (- 40)
      \<and> snr_bird_to_low st = Fin (- 20) \<and> snr_bird_to_mid st = Fin (- 10)"
    by (simp add: a) (auto simp: np_sub_def)
  from band_powers_and_snr [of "[1 / 2]" "[0, 1, 2]" "[1, 2, 3]"]
  have second: "\<exists>st. compute_statistics [1 / 2] [0, 1, 2] [1, 2, 3] = Inr st
      \<and> low_freq_power st = Fin 2 \<and> mid_freq_power st = NInf
      \<and> bird_freq_power st = NInf \<and> high_freq_power st = NInf
      \<and> snr_bird_to_low st = NInf \<and> snr_bird_to_mid st = NaN"
    by (simp add: b) (auto simp: np_sub_def)
  from first second show ?thesis
    by blast
qed


subsection \<open>Spectral rolloff\<close>

lemma cumsum_from_nth:
  "i < length xs \<Longrightarrow> cumsum_from acc xs ! i = acc + sum_list (take (Suc i) xs)"
proof (induction xs arbitrary: acc i)
  case Nil
  then show ?case by simp
next
  case (Cons x xs)
  then show ?case
    by (cases i) simp_all
qed

lemma cumsum_nth: "i < length xs \<Longrightarrow> cumsum xs ! i = sum_list (take (Suc i) xs)"
  by (simp add: cumsum_def cumsum_from_nth)

lemma last_cumsum:
  assumes "xs \<noteq> []"
  shows "last (cumsum xs) = sum_list xs"
proof -
  from assms have ne: "cumsum xs \<noteq> []"
    using length_cumsum [of xs] by auto
  then have "last (cumsum xs) = cumsum xs ! (length xs - 1)"
    by (simp add: last_conv_nth length_cumsum)
  also from assms have "\<dots> = sum_list (take (Suc (length xs - 1)) xs)"
    by (intro cumsum_nth) simp
  also from assms have "\<dots> = sum_list xs"
    by simp
  finally show ?thesis .
qed

lemma hd_filter_upt_Least:
  assumes "filter Q [0..<n] \<noteq> []"
  shows "hd (filter Q [0..<n]) = (LEAST i. i < n \<and> Q i)"
proof -
  obtain a rest where f: "filter Q [0..<n] = a # rest"
    using assms by (cases "filter Q [0..<n]") auto
  have "sorted (filter Q [0..<n])"
    by (rule sorted_wrt_filter) simp
  with f have least: "\<forall>y \<in> set (filter Q [0..<n]). a \<le> y"
    by auto
  have "a \<in> set (filter Q [0..<n])"
    by (simp add: f)
  then have a: "a < n \<and> Q a"
    by simp
  have "(LEAST i. i < n \<and> Q i) = a"
    using a least by (intro Least_equality) auto
  with f show ?thesis
    by simp
qed

lemma rolloff_idx_spec:
  assumes "psd \<noteq> []"
  shows "filter (\<lambda>i. 0.85 * last (cumsum psd) \<le> cumsum psd ! i) [0..<length (cumsum psd)]
         = filter (reaches_rolloff psd) [0..<length psd]"
  unfolding length_cumsum
  by (rule filter_cong) (simp_all add: reaches_rolloff_def cumsum_nth last_cumsum [OF assms])

lemma reaches_rolloff_filter:
  "filter (reaches_rolloff psd) [0..<length psd] \<noteq> [] \<longleftrightarrow> (\<exists>i. reaches_rolloff psd i)"
  by (auto simp: filter_empty_conv reaches_rolloff_def)

lemma reaches_rolloff_Least:
  "(LEAST i. i < length psd \<and> reaches_rolloff psd i) = (LEAST i. reaches_rolloff psd i)"
proof -
  have "(\<lambda>i. i < length psd \<and> reaches_rolloff psd i) = reaches_rolloff psd"
    by (auto simp: reaches_rolloff_def)
  then show ?thesis
    by simp
qed

lemma spectral_rolloff_spec:
  assumes "length freq = length psd" and "psd \<noteq> []"
  shows "spectral_rolloff_of freq psd = Inr (spec_rolloff freq psd)"
proof -
  let ?idx = "filter (reaches_rolloff psd) [0..<length psd]"
  have cs: "cumsum psd \<noteq> []"
    using assms(2) length_cumsum [of psd] by auto
  have unfolded: "spectral_rolloff_of freq psd =
      (if 0 < length ?idx
       then (if hd ?idx < length freq then Inr (Fin (freq ! hd ?idx)) else Inl IndexError)
       else Inr (Fin 0))"
    unfolding spectral_rolloff_of_def Let_def rolloff_idx_spec [OF assms(2)]
    using cs by simp
  show ?thesis
  proof (cases "\<exists>i. reaches_rolloff psd i")
    case True
    then have ne: "?idx \<noteq> []"
      by (simp add: reaches_rolloff_filter)
    then have "hd ?idx < length psd"
      by (rule hd_filter_upt)
    moreover have "hd ?idx = (LEAST i. reaches_rolloff psd i)"
      using hd_filter_upt_Least [OF ne] by (simp add: reaches_rolloff_Least)
    ultimately show ?thesis
      using True ne assms(1) by (simp add: unfolded spec_rolloff_def)
  next
    case False
    then have "?idx = []"
      using reaches_rolloff_filter [of psd] by blast
    with False show ?thesis
      by (simp add: unfolded spec_rolloff_def)
  qed
qed


text \<open>
  Claim C4, as stated, fails for an empty slice: \<open>cumsum[-1]\<close> raises \<open>IndexError\<close>
  before the guard on \<open>rolloff_idx\<close> is reached, so no statistics are returned.
\<close>

theorem rolloff_empty_slice_raises:
  "cumsum [] = []
   \<and> spectral_rolloff_of [] [] = Inl IndexError
   \<and> compute_statistics [1] [] [] = Inl IndexError
   \<and> \<not> (\<exists>st. compute_statistics [1] [] [] = Inr st \<and> spectral_rolloff st = Fin 0)"
proof -
  have r: "spectral_rolloff_of [] [] = Inl IndexError"
    by (simp add: spectral_rolloff_of_def cumsum_def)
  have "band_power in_band [] [] = Inr NInf" for in_band
    by (simp add: band_power_def)
  moreover have "\<exists>c. spectral_centroid_of [] [] = Inr c"
    by (simp add: spectral_centroid_of_def np_multiply_def)
  ultimately have "compute_statistics [1] [] [] = Inl IndexError"
    using r by (auto simp: compute_statistics_def Let_def)
  with r show ?thesis
    by (simp add: cumsum_def)
qed


text \<open>
  Claim C4, amended. For a frame (not empty) and a spectral slice that is not empty (the
  analyzer returns at least one bin) \<^verbatim>\<open>compute_statistics\<close> returns, and the rolloff is
  the frequency of the lowest-indexed bin at which the cumulative sum of \<open>power_db\<close> is
  at least 85 percent of the total; when no bin reaches it, the rolloff is 0.
\<close>

theorem rolloff_of_nonempty_slice:
  assumes "audio \<noteq> []" and "length freq = length psd" and "psd \<noteq> []"
  shows "\<exists>st. compute_statistics audio freq psd = Inr st
           \<and> spectral_rolloff st = spec_rolloff freq psd
           \<and> ((\<exists>i. reaches_rolloff psd i) \<longrightarrow>
                 spectral_rolloff st = Fin (freq ! (LEAST i. reaches_rolloff psd i))
                 \<and> reaches_rolloff psd (LEAST i. reaches_rolloff psd i))
           \<and> ((\<forall>i. \<not> reaches_rolloff psd i) \<longrightarrow> spectral_rolloff st = Fin 0)"
proof -
  from assms obtain st where st: "compute_statistics audio freq psd = Inr st"
    using compute_statistics_ok by blast
  have "spectral_rolloff st = spec_rolloff freq psd"
    using compute_statistics_bands(7) [OF st] spectral_rolloff_spec [OF assms(2,3)] by simp
  with st show ?thesis
    by (auto simp: spec_rolloff_def intro: LeastI)
qed

theorem rolloff_of_nonempty_slice_witness:
  "(\<exists>st. compute_statistics [1 / 2] [0, 1, 2] [1, 2, 3] = Inr st \<and> spectral_rolloff st = Fin 2)
   \<and> (\<exists>st. compute_statistics [1 / 2] [0, 1] [- 100, 50] = Inr st \<and> spectral_rolloff st = Fin 0)
   \<and> (\<exists>st. compute_statistics [0, 0, 0, 0] [0, 1, 2] [- 100, - 100, - 100] = Inr st
          \<and> spectral_rolloff st = Fin 0)"
proof -
  have eval: "spec_rolloff freq psd = v"
    if "length freq = length psd" and "psd \<noteq> []" and "spectral_rolloff_of freq psd = Inr v"
    for freq psd v
    using that spectral_rolloff_spec [of freq psd] by simp
  have "spec_rolloff [0, 1, 2] [1, 2, 3] = Fin 2"
    by (rule eval) (simp_all add: spectral_rolloff_of_def cumsum_def upt_rec)
  moreover have "spec_rolloff [0, 1] [- 100, 50] = Fin 0"
    by (rule eval) (simp_all add: spectral_rolloff_of_def cumsum_def upt_rec)
  moreover have "spec_rolloff [0, 1, 2] [- 100, - 100, - 100] = Fin 0"
    by (rule eval) (simp_all add: spectral_rolloff_of_def cumsum_def upt_rec)
  ultimately show ?thesis
    using rolloff_of_nonempty_slice [of "[1 / 2]" "[0, 1, 2]" "[1, 2, 3]"]
      rolloff_of_nonempty_slice [of "[1 / 2]" "[0, 1]" "[- 100, 50]"]
      rolloff_of_nonempty_slice [of "[0, 0, 0, 0]" "[0, 1, 2]" "[- 100, - 100, - 100]"]
    by auto
qed

subsection \<open>The spectrum of a frame\<close>

lemma hann_nth:
  assumes "j < n"
  shows "hann n ! j = spec_hann n j"
proof (cases "n \<le> 1")
  case True
  with assms have "n = 1" "j = 0"
    by simp_all
  then show ?thesis
    by (simp add: hann_def spec_hann_def)
next
  case False
  have "cos (- pi + 2 * pi * real j / real (n - 1)) = - cos (2 * pi * real j / real (n - 1))"
    using cos_add [of "- pi" "2 * pi * real j / real (n - 1)"] by simp
  with False assms show ?thesis
    by (simp add: hann_def spec_hann_def)
qed

lemma windowed_nth:
  assumes "j < length audio"
  shows "map2 (*) audio (hann (length audio)) ! j = spec_hann (length audio) j * audio ! j"
  using assms by (simp add: length_hann hann_nth)

lemma dft_bin_windowed:
  "dft_bin (map2 (*) audio (hann (length audio))) k =
   (\<Sum>j<length audio. complex_of_real (spec_hann (length audio) j * audio ! j) *
                        cis (- 2 * pi * real j * real k / real (length audio)))"
proof -
  let ?w = "map2 (*) audio (hann (length audio))"
  let ?n = "length audio"
  have len: "length ?w = ?n"
    by (simp add: length_hann)
  have "dft_bin ?w k =
      (\<Sum>j \<in> set [0..<?n]. complex_of_real (?w ! j) * cis (- 2 * pi * real j * real k / real ?n))"
    unfolding dft_bin_def len by (rule interv_sum_list_conv_sum_set_nat)
  also have "\<dots> =
      (\<Sum>j \<in> set [0..<?n]. complex_of_real (spec_hann ?n j * audio ! j) *
                             cis (- 2 * pi * real j * real k / real ?n))"
    by (rule sum.cong) (simp_all add: windowed_nth del: of_real_mult)
  finally show ?thesis
    by (simp add: lessThan_atLeast0)
qed

lemma analyze_frequency_spectrum_value:
  assumes "audio \<noteq> []" and "sample_rate cfg \<noteq> 0"
  shows "analyze_frequency_spectrum cfg audio =
         Inr (map (\<lambda>k. real k * (1 / (real (length audio) * (1 / real_of_int (sample_rate cfg)))))
                  [0..<length audio div 2 + 1],
              map (\<lambda>k. 10 * log 10 ((cmod (dft_bin (map2 (*) audio (hann (length audio))) k))\<^sup>2
                                       + 1 / 10 ^ 10))
                  [0..<length audio div 2 + 1])"
  using assms
  by (simp add: analyze_frequency_spectrum_def Let_def rfft_def rfftfreq_def length_hann
      hann_nonempty comp_def)

text \<open>
  Claim C3. For a frame of \<open>n > 0\<close> samples and a positive sample rate the analyzer
  returns a frequency axis of length \<open>n div 2 + 1\<close>, strictly ascending, with bin \<open>k\<close> at
  \<open>k * sample_rate / n\<close>, and a parallel \<open>power_db\<close> whose bin \<open>k\<close> is
  \<open>10 * log10(|X k|^2 + 1e-10)\<close> for \<open>X\<close> the real discrete Fourier transform of the
  frame multiplied by the Hann window.
\<close>

theorem spectrum_of_frame:
  assumes "audio \<noteq> []" and "0 < sample_rate cfg"
  shows "\<exists>freq power_db. analyze_frequency_spectrum cfg audio = Inr (freq, power_db)
     \<and> length freq = length audio div 2 + 1
     \<and> length power_db = length freq
     \<and> (\<forall>k \<le> length audio div 2.
           freq ! k = real k * real_of_int (sample_rate cfg) / real (length audio))
     \<and> sorted_wrt (<) freq
     \<and> (\<forall>k \<le> length audio div 2.
           power_db ! k =
             10 * log 10 ((cmod (\<Sum>j<length audio.
                             complex_of_real (spec_hann (length audio) j * audio ! j) *
                             cis (- 2 * pi * real j * real k / real (length audio))))\<^sup>2
                          + 1 / 10 ^ 10))"
proof -
  let ?n = "length audio"
  let ?freq = "map (\<lambda>k. real k * (1 / (real ?n * (1 / real_of_int (sample_rate cfg)))))
                   [0..<?n div 2 + 1]"
  let ?psd = "map (\<lambda>k. 10 * log 10 ((cmod (dft_bin (map2 (*) audio (hann ?n)) k))\<^sup>2 + 1 / 10 ^ 10))
                  [0..<?n div 2 + 1]"
  from assms have result: "analyze_frequency_spectrum cfg audio = Inr (?freq, ?psd)"
    by (intro analyze_frequency_spectrum_value) simp_all
  from assms have pos: "0 < real_of_int (sample_rate cfg) / real ?n"
    by simp
  have freq: "?freq ! k = real k * real_of_int (sample_rate cfg) / real ?n" if "k \<le> ?n div 2" for k
  proof -
    from that have "k < ?n div 2 + 1"
      by simp
    then have "?freq ! k = real k * (1 / (real ?n * (1 / real_of_int (sample_rate cfg))))"
      by (simp del: upt_Suc)
    then show ?thesis
      by simp
  qed
  have "?freq ! i < ?freq ! j" if "i < j" and "j < length ?freq" for i j
  proof -
    define c where "c = real_of_int (sample_rate cfg) / real ?n"
    from that have "i \<le> ?n div 2" "j \<le> ?n div 2"
      by simp_all
    then have fi: "?freq ! i = real i * c" and fj: "?freq ! j = real j * c"
      unfolding c_def using freq by simp_all
    from pos have "0 < c"
      by (simp only: c_def)
    moreover from that(1) have "real i < real j"
      by simp
    ultimately have "real i * c < real j * c"
      by (rule mult_strict_right_mono [rotated])
    then show ?thesis
      by (simp only: fi fj)
  qed
  then have ascending: "sorted_wrt (<) ?freq"
    unfolding sorted_wrt_iff_nth_less by blast
  have power: "?psd ! k =
      10 * log 10 ((cmod (\<Sum>j<?n. complex_of_real (spec_hann ?n j * audio ! j) *
                                   cis (- 2 * pi * real j * real k / real ?n)))\<^sup>2 + 1 / 10 ^ 10)"
    if "k \<le> ?n div 2" for k
  proof -
    from that have "k < ?n div 2 + 1"
      by simp
    then have "?psd ! k =
        10 * log 10 ((cmod (dft_bin (map2 (*) audio (hann ?n)) k))\<^sup>2 + 1 / 10 ^ 10)"
      by (simp del: upt_Suc)
    then show ?thesis
      by (simp only: dft_bin_windowed)
  qed
  have "length ?freq = ?n div 2 + 1" "length ?psd = length ?freq"
    by simp_all
  with result freq ascending power show ?thesis
    by blast
qed

theorem spectrum_of_frame_witness:
  "[0, 1, 0, - 1 :: real] \<noteq> [] \<and> 0 < sample_rate \<lparr>sample_rate = 4, chunk_duration = Fin 1, chunk_size = 4\<rparr>
   \<and> (\<exists>freq power_db.
         analyze_frequency_spectrum \<lparr>sample_rate = 4, chunk_duration = Fin 1, chunk_size = 4\<rparr> [0, 1, 0, - 1]
           = Inr (freq, power_db)
         \<and> freq = [0, 1, 2] \<and> length power_db = 3)"
proof -
  from spectrum_of_frame [of "[0, 1, 0, - 1]" "\<lparr>sample_rate = 4, chunk_duration = Fin 1, chunk_size = 4\<rparr>"]
  obtain freq power_db
    where a: "analyze_frequency_spectrum \<lparr>sample_rate = 4, chunk_duration = Fin 1, chunk_size = 4\<rparr> [0, 1, 0, - 1]
                = Inr (freq, power_db)"
      and len: "length freq = 3" "length power_db = length freq"
      and nth: "\<forall>k \<le> 2. freq ! k = real k"
    by auto
  from nth have bins: "freq ! 0 = 0" "freq ! 1 = 1" "freq ! 2 = 2"
    by simp_all
  from len(1) obtain a b c where "freq = [a, b, c]"
    by (auto simp: numeral_3_eq_3 length_Suc_conv)
  with bins have "freq = [0, 1, 2]"
    by simp
  with a len show ?thesis
    by simp
qed

end
